theory Spec2Isabelle
  imports Main "HOL-Library.Char_ord" "HOL-Library.List_Lexorder" "HOL-Library.Product_Lexorder"
begin

section \<open>Data model of tvm.py\<close>

text \<open>
  \<^verbatim>\<open>Segment = namedtuple("Segment", ["dev", "offset", "length"])\<close>.
  The field \<^verbatim>\<open>length\<close> is called \<open>length_seg\<close> here, since \<open>length\<close> is the length of a
  HOL list. Python integers are unbounded, hence \<open>int\<close>; devices are Python strings.
\<close>

record Segment =
  dev :: string
  offset :: int
  length_seg :: int

text \<open>
  The exceptions that the module can raise: its own two classes, the builtin
  \<^verbatim>\<open>NotImplementedError\<close>, and the builtin errors of a pop from an empty list, of a
  dictionary lookup with a missing key and of a read of an unbound name.
\<close>

datatype error =
    SegmentAllocationError string
  | VolumeError string
  | NotImplementedError string
  | IndexError
  | KeyError string
  | NameError string

section \<open>The allocator\<close>

text \<open>
  \<^verbatim>\<open>_allocate_segment(size, segs)\<close>: raises on an empty list; otherwise pops the first
  entry and, when it is longer than \<open>size\<close>, puts the residual tail back at the front
  and returns the prefix of length \<open>size\<close>. The second component is the list after the
  in-place update.
\<close>

definition allocate_segment :: "int \<Rightarrow> Segment list \<Rightarrow> error + (Segment \<times> Segment list)" where
  "allocate_segment sz segs =
     (case segs of
        [] \<Rightarrow> Inl (SegmentAllocationError ''Out of space in the segment allocator'')
      | s # rest \<Rightarrow>
          if length_seg s > sz
          then Inr (\<lparr>dev = dev s, offset = offset s, length_seg = sz\<rparr>,
                    \<lparr>dev = dev s, offset = offset s + sz, length_seg = length_seg s - sz\<rparr> # rest)
          else Inr (s, rest))"

text \<open>
  The loop \<^verbatim>\<open>while size > 0\<close> of \<^verbatim>\<open>Allocator.allocate_segments\<close>. It returns the
  result (or the exception) together with the final content of the list object
  \<^verbatim>\<open>segments\<close>, which \<^verbatim>\<open>_allocate_segment\<close> updates in place.
\<close>

function allocate_loop ::
  "int \<Rightarrow> Segment list \<Rightarrow> Segment list \<Rightarrow> (error + Segment list) \<times> Segment list" where
  "allocate_loop sz segments result =
     (if sz > 0 then
        (case allocate_segment sz segments of
           Inl e \<Rightarrow> (Inl e, segments)
         | Inr (s, segments') \<Rightarrow> allocate_loop (sz - length_seg s) segments' (result @ [s]))
      else (Inr result, segments))"
  by pat_completeness auto
termination
proof (relation "measure (\<lambda>(sz, segments, result). length segments + (if sz > 0 then 1 else 0))")
  show "wf (measure (\<lambda>(sz, segments, result). length segments + (if sz > 0 then 1 else 0)))"
    by simp
next
  fix sz :: int and segments result :: "Segment list" and x2 s segments'
  assume "0 < sz" and "allocate_segment sz segments = Inr x2" and "(s, segments') = x2"
  then show "((sz - length_seg s, segments', result @ [s]), (sz, segments, result))
      \<in> measure (\<lambda>(sz, segments, result). length segments + (if sz > 0 then 1 else 0))"
    by (auto simp: allocate_segment_def split: list.splits if_splits)
qed

declare allocate_loop.simps [simp del]

record Allocator =
  free_segments :: "Segment list"

text \<open>\<^verbatim>\<open>Allocator.__init__\<close>\<close>

definition Allocator_init :: Allocator where
  "Allocator_init = \<lparr>free_segments = []\<rparr>"

text \<open>
  \<^verbatim>\<open>Allocator.allocate_segments(size, segment_predicate)\<close>. With a predicate the loop
  works on a fresh filtered list, so an exception leaves \<^verbatim>\<open>self._free_segments\<close> as
  it was, and a normal return replaces the pool by what is left of the filtered list.
  Without a predicate \<^verbatim>\<open>segments\<close> is the pool's own list object: the pops have
  happened on the pool when the exception is raised.
\<close>

definition allocate_segments ::
  "Allocator \<Rightarrow> int \<Rightarrow> (Segment \<Rightarrow> bool) option \<Rightarrow> (error + Segment list) \<times> Allocator" where
  "allocate_segments a sz segment_predicate =
     (case segment_predicate of
        Some p \<Rightarrow>
          (case allocate_loop sz (filter p (free_segments a)) [] of
             (Inl e, segments) \<Rightarrow> (Inl e, a)
           | (Inr result, segments) \<Rightarrow> (Inr result, a\<lparr>free_segments := segments\<rparr>))
      | None \<Rightarrow>
          (case allocate_loop sz (free_segments a) [] of
             (Inl e, segments) \<Rightarrow> (Inl e, a\<lparr>free_segments := segments\<rparr>)
           | (Inr result, segments) \<Rightarrow> (Inr result, a\<lparr>free_segments := segments\<rparr>)))"

text \<open>
  The loop \<^verbatim>\<open>while segs\<close> of \<^verbatim>\<open>_merge\<close>, with the current run \<open>s\<close> and the list
  \<open>merged\<close> built so far.
\<close>

fun merge_loop :: "Segment \<Rightarrow> Segment list \<Rightarrow> Segment list \<Rightarrow> Segment \<times> Segment list" where
  "merge_loop s [] merged = (s, merged)"
| "merge_loop s (n # segs) merged =
     (if dev n = dev s \<and> offset n = offset s + length_seg s
      then merge_loop \<lparr>dev = dev s, offset = offset s, length_seg = length_seg s + length_seg n\<rparr>
             segs merged
      else merge_loop n segs (merged @ [s]))"

text \<open>
  The sort key of \<^verbatim>\<open>_merge\<close>, \<^verbatim>\<open>lambda seg: (seg.dev, seg.offset)\<close>. Python compares
  tuples lexicographically and strings by code points, as the orders on pairs and on
  character lists do here.
\<close>

definition seg_key :: "Segment \<Rightarrow> string \<times> int" where
  "seg_key seg = (dev seg, offset seg)"

text \<open>
  \<^verbatim>\<open>_merge(segs)\<close>: a stable sort by the key \<^verbatim>\<open>(seg.dev, seg.offset)\<close>, then
  \<^verbatim>\<open>segs.pop(0)\<close>, which raises IndexError on an empty list, then the loop. The final
  test \<^verbatim>\<open>if s\<close> is always true: a named tuple of three fields is a non-empty tuple.
\<close>

definition merge_segs :: "Segment list \<Rightarrow> error + Segment list" where
  "merge_segs segs =
     (case sort_key seg_key segs of
        [] \<Rightarrow> Inl IndexError
      | s # rest \<Rightarrow> (case merge_loop s rest [] of (s', merged) \<Rightarrow> Inr (merged @ [s'])))"

text \<open>
  \<^verbatim>\<open>Allocator.release_segments(segs)\<close>: extends the pool in place, then replaces it by
  the merged list. When \<^verbatim>\<open>_merge\<close> raises, the pool is the extended list, sorted in
  place.
\<close>

definition release_segments :: "Allocator \<Rightarrow> Segment list \<Rightarrow> (error + unit) \<times> Allocator" where
  "release_segments a segs =
     (let pool = free_segments a @ segs in
      case merge_segs pool of
        Inl e \<Rightarrow> (Inl e, a\<lparr>free_segments := sort_key seg_key pool\<rparr>)
      | Inr merged \<Rightarrow> (Inr (), a\<lparr>free_segments := merged\<rparr>))"

text \<open>\<^verbatim>\<open>Allocator.free_space\<close>\<close>

definition free_space :: "Allocator \<Rightarrow> int" where
  "free_space a = sum_list (map length_seg (free_segments a))"

section \<open>Volumes\<close>

text \<open>
  Modelled from the spec: the class \<^verbatim>\<open>LinearTarget\<close> of
  \<^verbatim>\<open>dmtest.device_mapper.targets\<close> is not part of the sources at hand. The spec has it
  as an opaque value built from (length, backing device, backing offset), which this
  module only constructs and keeps in order.
\<close>

datatype LinearTarget = LinearTarget int string int

text \<open>
  An object of class \<^verbatim>\<open>Volume\<close> or of its subclass \<^verbatim>\<open>LinearVolume\<close>; \<open>vol_kind\<close> is
  the class of the object, the other fields are \<^verbatim>\<open>_name\<close>, \<^verbatim>\<open>_length\<close>,
  \<^verbatim>\<open>_segments\<close>, \<^verbatim>\<open>_targets\<close> and \<^verbatim>\<open>_allocated\<close>.
\<close>

datatype volume_kind = BaseVolume | LinearVolume

record Volume =
  vol_kind :: volume_kind
  vol_name :: string
  vol_length :: int
  vol_segments :: "Segment list"
  vol_targets :: "LinearTarget list"
  vol_allocated :: bool

text \<open>\<^verbatim>\<open>Volume.__init__\<close> and \<^verbatim>\<open>LinearVolume.__init__\<close>\<close>

definition Volume_init :: "string \<Rightarrow> int \<Rightarrow> Volume" where
  "Volume_init name len =
     \<lparr>vol_kind = BaseVolume, vol_name = name, vol_length = len, vol_segments = [],
      vol_targets = [], vol_allocated = False\<rparr>"

definition LinearVolume_init :: "string \<Rightarrow> int \<Rightarrow> Volume" where
  "LinearVolume_init name len = (Volume_init name len)\<lparr>vol_kind := LinearVolume\<rparr>"

text \<open>\<^verbatim>\<open>Volume.size\<close>\<close>

definition Volume_size :: "Volume \<Rightarrow> int" where
  "Volume_size vol = sum_list (map length_seg (vol_segments vol))"

text \<open>\<^verbatim>\<open>_segs_to_targets\<close>\<close>

definition segs_to_targets :: "Segment list \<Rightarrow> LinearTarget list" where
  "segs_to_targets segs = map (\<lambda>s. LinearTarget (length_seg s) (dev s) (offset s)) segs"

text \<open>
  \<^verbatim>\<open>Volume.resize\<close> and \<^verbatim>\<open>Volume.allocate\<close> of the base class raise
  \<^verbatim>\<open>NotImplementedError()\<close>. Every method on a volume returns its outcome, the
  allocator and the volume after the call.
\<close>

definition Volume_resize ::
  "Volume \<Rightarrow> Allocator \<Rightarrow> int \<Rightarrow> (Segment \<Rightarrow> bool) option \<Rightarrow> (error + unit) \<times> Allocator \<times> Volume" where
  "Volume_resize vol allocator new_length segment_predicate =
     (Inl (NotImplementedError []), allocator, vol)"

definition Volume_allocate ::
  "Volume \<Rightarrow> Allocator \<Rightarrow> (Segment \<Rightarrow> bool) option \<Rightarrow> (error + unit) \<times> Allocator \<times> Volume" where
  "Volume_allocate vol allocator segment_predicate =
     (Inl (NotImplementedError []), allocator, vol)"

text \<open>\<^verbatim>\<open>LinearVolume.resize\<close>\<close>

definition LinearVolume_resize ::
  "Volume \<Rightarrow> Allocator \<Rightarrow> int \<Rightarrow> (Segment \<Rightarrow> bool) option \<Rightarrow> (error + unit) \<times> Allocator \<times> Volume" where
  "LinearVolume_resize vol allocator new_length segment_predicate =
     (if \<not> vol_allocated vol then (Inr (), allocator, vol\<lparr>vol_length := new_length\<rparr>)
      else if new_length < vol_length vol
      then (Inl (NotImplementedError ''reduce not implemented''), allocator, vol)
      else
        (case allocate_segments allocator (new_length - vol_length vol) segment_predicate of
           (Inl e, allocator') \<Rightarrow> (Inl e, allocator', vol)
         | (Inr new_segs, allocator') \<Rightarrow>
             (Inr (), allocator',
              vol\<lparr>vol_segments := vol_segments vol @ new_segs,
                  vol_targets := vol_targets vol @ segs_to_targets new_segs,
                  vol_length := new_length\<rparr>)))"

text \<open>\<^verbatim>\<open>LinearVolume.allocate\<close>\<close>

definition LinearVolume_allocate ::
  "Volume \<Rightarrow> Allocator \<Rightarrow> (Segment \<Rightarrow> bool) option \<Rightarrow> (error + unit) \<times> Allocator \<times> Volume" where
  "LinearVolume_allocate vol allocator segment_predicate =
     (case allocate_segments allocator (vol_length vol) segment_predicate of
        (Inl e, allocator') \<Rightarrow> (Inl e, allocator', vol)
      | (Inr segs, allocator') \<Rightarrow>
          (Inr (), allocator',
           vol\<lparr>vol_segments := segs, vol_targets := segs_to_targets segs,
               vol_allocated := True\<rparr>))"

text \<open>Method dispatch on the class of the volume object.\<close>

definition resize ::
  "Volume \<Rightarrow> Allocator \<Rightarrow> int \<Rightarrow> (Segment \<Rightarrow> bool) option \<Rightarrow> (error + unit) \<times> Allocator \<times> Volume" where
  "resize vol allocator new_length segment_predicate =
     (case vol_kind vol of
        BaseVolume \<Rightarrow> Volume_resize vol allocator new_length segment_predicate
      | LinearVolume \<Rightarrow> LinearVolume_resize vol allocator new_length segment_predicate)"

definition allocate ::
  "Volume \<Rightarrow> Allocator \<Rightarrow> (Segment \<Rightarrow> bool) option \<Rightarrow> (error + unit) \<times> Allocator \<times> Volume" where
  "allocate vol allocator segment_predicate =
     (case vol_kind vol of
        BaseVolume \<Rightarrow> Volume_allocate vol allocator segment_predicate
      | LinearVolume \<Rightarrow> LinearVolume_allocate vol allocator segment_predicate)"

section \<open>The volume manager\<close>

record VM =
  vm_allocator :: Allocator
  vm_volumes :: "string \<rightharpoonup> Volume"

text \<open>\<^verbatim>\<open>VM.__init__\<close>\<close>

definition VM_init :: VM where
  "VM_init = \<lparr>vm_allocator = Allocator_init, vm_volumes = Map.empty\<rparr>"

text \<open>
  \<^verbatim>\<open>VM.add_allocation_volume(dev, offset, length)\<close>. The lookup \<^verbatim>\<open>utils.dev_size\<close> is
  outside this module and is a parameter; \<^verbatim>\<open>not length\<close> holds for \<^verbatim>\<open>None\<close> and for 0.
\<close>

definition add_allocation_volume ::
  "(string \<Rightarrow> int) \<Rightarrow> VM \<Rightarrow> string \<Rightarrow> int \<Rightarrow> int option \<Rightarrow> (error + unit) \<times> VM" where
  "add_allocation_volume dev_size vm d off len =
     (let len' = (case len of None \<Rightarrow> dev_size d
                  | Some l \<Rightarrow> if l = 0 then dev_size d else l) in
      case release_segments (vm_allocator vm) [\<lparr>dev = d, offset = off, length_seg = len'\<rparr>] of
        (r, a') \<Rightarrow> (r, vm\<lparr>vm_allocator := a'\<rparr>))"

text \<open>\<^verbatim>\<open>VM.free_space\<close>\<close>

definition VM_free_space :: "VM \<Rightarrow> int" where
  "VM_free_space vm = free_space (vm_allocator vm)"

text \<open>\<^verbatim>\<open>VM._check_not_exist\<close> and \<^verbatim>\<open>VM._check_exists\<close>\<close>

definition check_not_exist :: "VM \<Rightarrow> string \<Rightarrow> error + unit" where
  "check_not_exist vm name =
     (if name \<in> dom (vm_volumes vm)
      then Inl (VolumeError (''Volume '' @ [CHR 0x27] @ name @ [CHR 0x27] @ '' already exists''))
      else Inr ())"

definition check_exists :: "VM \<Rightarrow> string \<Rightarrow> error + unit" where
  "check_exists vm name =
     (if name \<notin> dom (vm_volumes vm)
      then Inl (VolumeError (''Volume '' @ [CHR 0x27] @ name @ [CHR 0x27] @ '' doesn'' @ [CHR 0x27] @ ''t exist''))
      else Inr ())"

text \<open>
  A dictionary read \<^verbatim>\<open>self._volumes[name]\<close>, which raises \<^verbatim>\<open>KeyError\<close> on a missing
  key.
\<close>

definition volumes_getitem :: "VM \<Rightarrow> string \<Rightarrow> error + Volume" where
  "volumes_getitem vm name =
     (case vm_volumes vm name of None \<Rightarrow> Inl (KeyError name) | Some vol \<Rightarrow> Inr vol)"

text \<open>
  \<^verbatim>\<open>VM.add_volume\<close>: the check, the allocation, then the registration. The allocator
  is the manager's own object, so what a failed allocation did to it stays.
\<close>

definition add_volume :: "VM \<Rightarrow> Volume \<Rightarrow> (Segment \<Rightarrow> bool) option \<Rightarrow> (error + unit) \<times> VM" where
  "add_volume vm vol segment_predicate =
     (case check_not_exist vm (vol_name vol) of
        Inl e \<Rightarrow> (Inl e, vm)
      | Inr u \<Rightarrow>
          (case allocate vol (vm_allocator vm) segment_predicate of
             (Inl e, a', vol') \<Rightarrow> (Inl e, vm\<lparr>vm_allocator := a'\<rparr>)
           | (Inr u', a', vol') \<Rightarrow>
               (Inr (), vm\<lparr>vm_allocator := a',
                           vm_volumes := (vm_volumes vm)(vol_name vol' \<mapsto> vol')\<rparr>)))"

text \<open>\<^verbatim>\<open>VM.remove_volume\<close>\<close>

definition remove_volume :: "VM \<Rightarrow> string \<Rightarrow> (error + unit) \<times> VM" where
  "remove_volume vm name =
     (case check_exists vm name of
        Inl e \<Rightarrow> (Inl e, vm)
      | Inr u \<Rightarrow>
          (case volumes_getitem vm name of
             Inl e \<Rightarrow> (Inl e, vm)
           | Inr vol \<Rightarrow>
               (case release_segments (vm_allocator vm) (vol_segments vol) of
                  (Inl e, a') \<Rightarrow> (Inl e, vm\<lparr>vm_allocator := a'\<rparr>)
                | (Inr u', a') \<Rightarrow>
                    (Inr (), vm\<lparr>vm_allocator := a',
                                vm_volumes := (vm_volumes vm)(name := None)\<rparr>))))"

text \<open>\<^verbatim>\<open>VM.size\<close>: the dictionary read with no existence check before it.\<close>

definition VM_size :: "VM \<Rightarrow> string \<Rightarrow> (error + int) \<times> VM" where
  "VM_size vm name =
     (case volumes_getitem vm name of
        Inl e \<Rightarrow> (Inl e, vm)
      | Inr vol \<Rightarrow> (Inr (Volume_size vol), vm))"

text \<open>
  \<^verbatim>\<open>VM.resize\<close>: after the existence check, the call
  \<^verbatim>\<open>self._volumes[name].resize(self._allocator, new_size, segment_preicate)\<close> evaluates
  its arguments first. The name \<^verbatim>\<open>segment_preicate\<close> is bound nowhere (the parameter
  is \<^verbatim>\<open>segment_predicate\<close>), so Python raises \<^verbatim>\<open>NameError\<close> before the volume's
  \<^verbatim>\<open>resize\<close> is entered.
\<close>

definition VM_resize ::
  "VM \<Rightarrow> string \<Rightarrow> int \<Rightarrow> (Segment \<Rightarrow> bool) option \<Rightarrow> (error + unit) \<times> VM" where
  "VM_resize vm name new_size segment_predicate =
     (case check_exists vm name of
        Inl e \<Rightarrow> (Inl e, vm)
      | Inr u \<Rightarrow>
          (case volumes_getitem vm name of
             Inl e \<Rightarrow> (Inl e, vm)
           | Inr vol \<Rightarrow> (Inl (NameError ''segment_preicate''), vm)))"

text \<open>\<^verbatim>\<open>VM.segments\<close> and \<^verbatim>\<open>VM.targets\<close>\<close>

definition VM_segments :: "VM \<Rightarrow> string \<Rightarrow> (error + Segment list) \<times> VM" where
  "VM_segments vm name =
     (case check_exists vm name of
        Inl e \<Rightarrow> (Inl e, vm)
      | Inr u \<Rightarrow>
          (case volumes_getitem vm name of
             Inl e \<Rightarrow> (Inl e, vm)
           | Inr vol \<Rightarrow> (Inr (vol_segments vol), vm)))"

definition VM_targets :: "VM \<Rightarrow> string \<Rightarrow> (error + LinearTarget list) \<times> VM" where
  "VM_targets vm name =
     (case check_exists vm name of
        Inl e \<Rightarrow> (Inl e, vm)
      | Inr u \<Rightarrow>
          (case volumes_getitem vm name of
             Inl e \<Rightarrow> (Inl e, vm)
           | Inr vol \<Rightarrow> (Inr (vol_targets vol), vm)))"

section \<open>The scenario of the specification\<close>

text \<open>
  The manager after registering the backing extent ("d0", 0, 100) and adding the linear
  volume "v" of length 30.
\<close>

definition scenario_vm :: VM where
  "scenario_vm =
     snd (add_volume (snd (add_allocation_volume (\<lambda>d. 0) VM_init ''d0'' 0 (Some 100)))
            (LinearVolume_init ''v'' 30) None)"

definition scenario_vol :: Volume where
  "scenario_vol =
     \<lparr>vol_kind = LinearVolume, vol_name = ''v'', vol_length = 30,
      vol_segments = [\<lparr>dev = ''d0'', offset = 0, length_seg = 30\<rparr>],
      vol_targets = [LinearTarget 30 ''d0'' 0], vol_allocated = True\<rparr>"

section \<open>Predicates of the specification\<close>

text \<open>The predicate "only this backing device", the specification's example of a filter.\<close>

definition on_device :: "string \<Rightarrow> Segment \<Rightarrow> bool" where
  "on_device d s \<longleftrightarrow> dev s = d"

text \<open>
  Two extents overlap when they are on the same device and their half-open offset
  intervals share a point; an extent is a sub-range of another on the same device whose
  interval contains its own.
\<close>

definition overlaps :: "Segment \<Rightarrow> Segment \<Rightarrow> bool" where
  "overlaps a b \<longleftrightarrow>
     dev a = dev b \<and>
     max (offset a) (offset b) < min (offset a + length_seg a) (offset b + length_seg b)"

definition sub_range :: "Segment \<Rightarrow> Segment \<Rightarrow> bool" where
  "sub_range a b \<longleftrightarrow>
     dev a = dev b \<and> offset b \<le> offset a \<and>
     offset a + length_seg a \<le> offset b + length_seg b"

text \<open>Pairwise: no entry overlaps an entry at another position of the list.\<close>

definition non_overlapping :: "Segment list \<Rightarrow> bool" where
  "non_overlapping segs = sorted_wrt (\<lambda>a b. \<not> overlaps a b) segs"

text \<open>
  The specification's adjacency: same device, and the first extent ends where the
  second starts.
\<close>

definition adjacent :: "Segment \<Rightarrow> Segment \<Rightarrow> bool" where
  "adjacent a b \<longleftrightarrow> dev a = dev b \<and> offset a + length_seg a = offset b"

text \<open>
  The eligible pool of an allocation: the list that the loop of
  \<^verbatim>\<open>allocate_segments\<close> consumes. It is exhausted before the accumulated length
  reaches \<open>S\<close> when every prefix of it, the whole list included, sums to less than \<open>S\<close>.
\<close>

definition eligible :: "Allocator \<Rightarrow> (Segment \<Rightarrow> bool) option \<Rightarrow> Segment list" where
  "eligible a segment_predicate =
     (case segment_predicate of
        None \<Rightarrow> free_segments a
      | Some p \<Rightarrow> filter p (free_segments a))"

definition exhausted_before :: "int \<Rightarrow> Segment list \<Rightarrow> bool" where
  "exhausted_before S segs \<longleftrightarrow>
     (\<forall>k \<in> {..length segs}. sum_list (map length_seg (take k segs)) < S)"

text \<open>
  On one device the first extent ends at or before the start of the second, or the first
  is on a smaller device: the order of disjoint extents in the sorted pool.
\<close>

definition ends_before :: "Segment \<Rightarrow> Segment \<Rightarrow> bool" where
  "ends_before a b \<longleftrightarrow>
     dev a < dev b \<or> (dev a = dev b \<and> offset a + length_seg a \<le> offset b)"

text \<open>
  On one device the first extent ends strictly before the start of the second, or the
  first is on a smaller device: the order of a sorted pool with no two entries that
  overlap or are adjacent.
\<close>

definition strictly_before :: "Segment \<Rightarrow> Segment \<Rightarrow> bool" where
  "strictly_before a b \<longleftrightarrow>
     dev a < dev b \<or> (dev a = dev b \<and> offset a + length_seg a < offset b)"

text \<open>
  A run of entries, given by its head and its tail, merged into a single entry: device
  and offset of the head, the lengths added up.
\<close>

definition join_run :: "Segment \<Rightarrow> Segment list \<Rightarrow> Segment" where
  "join_run h t =
     \<lparr>dev = dev h, offset = offset h, length_seg = length_seg h + sum_list (map length_seg t)\<rparr>"

text \<open>
  The space that a list of extents represents: offset \<open>x\<close> of device \<open>d\<close> lies in one of
  them.
\<close>

definition covers :: "Segment list \<Rightarrow> string \<Rightarrow> int \<Rightarrow> bool" where
  "covers segs d x \<longleftrightarrow>
     (\<exists>s \<in> set segs. dev s = d \<and> offset s \<le> x \<and> x < offset s + length_seg s)"

text \<open>The free pool as \<^verbatim>\<open>release_segments\<close> leaves it.\<close>

definition pool_after_release :: "Allocator \<Rightarrow> Segment list \<Rightarrow> Segment list" where
  "pool_after_release a X = free_segments (snd (release_segments a X))"

section \<open>The allocation loop, one list entry at a time\<close>

lemma allocate_loop_Nil:
  "allocate_loop sz [] acc =
     (if sz > 0 then (Inl (SegmentAllocationError ''Out of space in the segment allocator''), [])
      else (Inr acc, []))"
  by (subst allocate_loop.simps) (simp add: allocate_segment_def)

lemma allocate_loop_done: "sz \<le> 0 \<Longrightarrow> allocate_loop sz segs acc = (Inr acc, segs)"
  by (subst allocate_loop.simps) simp

lemma allocate_loop_Cons:
  "allocate_loop sz (s # rest) acc =
     (if sz \<le> 0 then (Inr acc, s # rest)
      else if length_seg s > sz
      then (Inr (acc @ [\<lparr>dev = dev s, offset = offset s, length_seg = sz\<rparr>]),
            \<lparr>dev = dev s, offset = offset s + sz, length_seg = length_seg s - sz\<rparr> # rest)
      else allocate_loop (sz - length_seg s) rest (acc @ [s]))"
  by (subst allocate_loop.simps) (simp add: allocate_segment_def allocate_loop_done)

lemmas allocate_eval =
  allocate_segments_def allocate_loop_Nil allocate_loop_Cons

section \<open>Evaluation of the scenario\<close>

lemma scenario_vm_eq:
  "scenario_vm =
     \<lparr>vm_allocator = \<lparr>free_segments = [\<lparr>dev = ''d0'', offset = 30, length_seg = 70\<rparr>]\<rparr>,
      vm_volumes = [''v'' \<mapsto> scenario_vol]\<rparr>"
  by (simp add: scenario_vm_def scenario_vol_def add_volume_def add_allocation_volume_def
      VM_init_def Allocator_init_def release_segments_def merge_segs_def check_not_exist_def
      allocate_def LinearVolume_allocate_def LinearVolume_init_def Volume_init_def
      allocate_eval segs_to_targets_def)

lemma scenario_queries:
  "VM_size scenario_vm ''v'' = (Inr 30, scenario_vm)"
  "VM_free_space scenario_vm = 70"
  "VM_targets scenario_vm ''v'' = (Inr [LinearTarget 30 ''d0'' 0], scenario_vm)"
  by (simp_all add: scenario_vm_eq scenario_vol_def VM_size_def VM_free_space_def free_space_def
      VM_targets_def check_exists_def volumes_getitem_def Volume_size_def)

text \<open>
  The volume's own \<^verbatim>\<open>resize\<close>, called directly on the scenario's volume and allocator,
  grows the volume to 50 by a second target and leaves 50 free.
\<close>

lemma scenario_volume_resize:
  "resize scenario_vol (vm_allocator scenario_vm) 50 None =
     (Inr (), \<lparr>free_segments = [\<lparr>dev = ''d0'', offset = 50, length_seg = 50\<rparr>]\<rparr>,
      scenario_vol\<lparr>vol_segments := [\<lparr>dev = ''d0'', offset = 0, length_seg = 30\<rparr>,
                                     \<lparr>dev = ''d0'', offset = 30, length_seg = 20\<rparr>],
                  vol_targets := [LinearTarget 30 ''d0'' 0, LinearTarget 20 ''d0'' 30],
                  vol_length := 50\<rparr>)"
  by (simp add: scenario_vm_eq scenario_vol_def resize_def LinearVolume_resize_def
      allocate_eval segs_to_targets_def)

section \<open>Queries and resize through the manager\<close>

lemma VM_resize_of_known_name:
  "name \<in> dom (vm_volumes vm) \<Longrightarrow>
   VM_resize vm name new_size p = (Inl (NameError ''segment_preicate''), vm)"
  by (auto simp: VM_resize_def check_exists_def volumes_getitem_def)

lemma queries_of_unknown_name:
  assumes "name \<notin> dom (vm_volumes vm)"
  shows "VM_size vm name = (Inl (KeyError name), vm)"
    and "VM_segments vm name =
      (Inl (VolumeError (''Volume '' @ [CHR 0x27] @ name @ [CHR 0x27] @ '' doesn'' @ [CHR 0x27] @ ''t exist'')),
       vm)"
    and "VM_targets vm name =
      (Inl (VolumeError (''Volume '' @ [CHR 0x27] @ name @ [CHR 0x27] @ '' doesn'' @ [CHR 0x27] @ ''t exist'')),
       vm)"
proof -
  from assms have none: "vm_volumes vm name = None"
    by (simp add: domIff)
  show "VM_size vm name = (Inl (KeyError name), vm)"
    by (simp add: VM_size_def volumes_getitem_def none)
  show "VM_segments vm name =
      (Inl (VolumeError (''Volume '' @ [CHR 0x27] @ name @ [CHR 0x27] @ '' doesn'' @ [CHR 0x27] @ ''t exist'')),
       vm)"
    using assms by (simp add: VM_segments_def check_exists_def)
  show "VM_targets vm name =
      (Inl (VolumeError (''Volume '' @ [CHR 0x27] @ name @ [CHR 0x27] @ '' doesn'' @ [CHR 0x27] @ ''t exist'')),
       vm)"
    using assms by (simp add: VM_targets_def check_exists_def)
qed

section \<open>What a run of the allocation loop returns\<close>

lemma sub_range_refl: "sub_range s s"
  by (simp add: sub_range_def)

lemma list_all2_set1: "list_all2 P xs ys \<Longrightarrow> x \<in> set xs \<Longrightarrow> \<exists>y \<in> set ys. P x y"
  by (induction rule: list_all2_induct) auto

lemma allocate_loop_result:
  "allocate_loop sz segs acc = (Inr res, segs') \<Longrightarrow>
   \<exists>new. res = acc @ new \<and> length new \<le> length segs \<and>
         list_all2 sub_range new (take (length new) segs) \<and>
         (if sz > 0 then sum_list (map length_seg new) = sz else new = [])"
proof (induction segs arbitrary: sz acc)
  case Nil
  then show ?case by (auto simp: allocate_loop_Nil split: if_splits)
next
  case (Cons s rest)
  show ?case
  proof (cases "sz \<le> 0")
    case True
    with Cons.prems show ?thesis by (simp add: allocate_loop_Cons)
  next
    case pos: False
    show ?thesis
    proof (cases "length_seg s > sz")
      case True
      with pos Cons.prems have "res = acc @ [\<lparr>dev = dev s, offset = offset s, length_seg = sz\<rparr>]"
        by (simp add: allocate_loop_Cons)
      with pos True show ?thesis by (simp add: sub_range_def)
    next
      case False
      with pos Cons.prems have "allocate_loop (sz - length_seg s) rest (acc @ [s]) = (Inr res, segs')"
        by (simp add: allocate_loop_Cons)
      from Cons.IH [OF this] obtain new where new: "res = (acc @ [s]) @ new"
        "length new \<le> length rest"
        "list_all2 sub_range new (take (length new) rest)"
        "if sz - length_seg s > 0 then sum_list (map length_seg new) = sz - length_seg s else new = []"
        by blast
      have "sum_list (map length_seg (s # new)) = sz"
        using new(4) False pos by (auto split: if_splits)
      with new(1,2,3) pos show ?thesis
        by (intro exI [of _ "s # new"]) (simp add: sub_range_refl)
    qed
  qed
qed

lemma overlaps_sub_range:
  "overlaps x x' \<Longrightarrow> sub_range x y \<Longrightarrow> sub_range x' y' \<Longrightarrow> overlaps y y'"
  by (auto simp: overlaps_def sub_range_def)

lemma non_overlapping_sub_ranges:
  "list_all2 sub_range xs ys \<Longrightarrow> non_overlapping ys \<Longrightarrow> non_overlapping xs"
  unfolding non_overlapping_def
proof (induction rule: list_all2_induct)
  case Nil
  then show ?case by simp
next
  case (Cons x xs y ys)
  have "\<not> overlaps x x'" if "x' \<in> set xs" for x'
  proof -
    from that Cons.hyps(2) obtain y' where "y' \<in> set ys" "sub_range x' y'"
      by (blast dest: list_all2_set1)
    with Cons.prems Cons.hyps(1) show ?thesis
      by (auto dest: overlaps_sub_range)
  qed
  with Cons show ?case by simp
qed

lemma sub_range_in_pool:
  "list_all2 sub_range xs (take n ys) \<Longrightarrow> r \<in> set xs \<Longrightarrow> \<exists>f \<in> set ys. sub_range r f"
  by (blast dest: list_all2_set1 in_set_takeD)

lemma allocate_segments_loop:
  "allocate_segments a sz p =
     (case allocate_loop sz (eligible a p) [] of
        (Inl e, segs') \<Rightarrow> (Inl e, case p of None \<Rightarrow> a\<lparr>free_segments := segs'\<rparr> | Some q \<Rightarrow> a)
      | (Inr res, segs') \<Rightarrow> (Inr res, a\<lparr>free_segments := segs'\<rparr>))"
  by (simp add: allocate_segments_def eligible_def split: option.splits prod.splits sum.splits)

lemma set_eligible: "set (eligible a p) \<subseteq> set (free_segments a)"
  by (auto simp: eligible_def split: option.splits)

lemma non_overlapping_eligible:
  "non_overlapping (free_segments a) \<Longrightarrow> non_overlapping (eligible a p)"
  by (auto simp: eligible_def non_overlapping_def sorted_wrt_filter split: option.splits)

lemma non_overlapping_take: "non_overlapping xs \<Longrightarrow> non_overlapping (take n xs)"
  unfolding non_overlapping_def by (rule sorted_wrt_take)

lemma all_atMost_Suc: "(\<forall>k \<in> {..Suc n}. P k) \<longleftrightarrow> P 0 \<and> (\<forall>k \<in> {..n}. P (Suc k))"
proof
  assume "\<forall>k \<in> {..Suc n}. P k"
  then show "P 0 \<and> (\<forall>k \<in> {..n}. P (Suc k))" by simp
next
  assume h: "P 0 \<and> (\<forall>k \<in> {..n}. P (Suc k))"
  show "\<forall>k \<in> {..Suc n}. P k"
  proof
    fix k assume "k \<in> {..Suc n}"
    with h show "P k" by (cases k) auto
  qed
qed

lemma exhausted_before_pos: "exhausted_before S segs \<Longrightarrow> 0 < S"
proof -
  assume "exhausted_before S segs"
  then have "sum_list (map length_seg (take 0 segs)) < S"
    unfolding exhausted_before_def by blast
  then show ?thesis by simp
qed

lemma exhausted_before_Cons:
  "exhausted_before S (s # rest) \<longleftrightarrow> 0 < S \<and> exhausted_before (S - length_seg s) rest"
  by (simp add: exhausted_before_def all_atMost_Suc less_diff_eq add.commute)

lemma allocate_loop_fails_iff:
  "(\<exists>e segs'. allocate_loop sz segs acc = (Inl e, segs')) \<longleftrightarrow> exhausted_before sz segs"
proof (induction segs arbitrary: sz acc)
  case Nil
  show ?case by (simp add: allocate_loop_Nil exhausted_before_def)
next
  case (Cons s rest)
  consider "sz \<le> 0" | "0 < sz" "sz < length_seg s" | "0 < sz" "length_seg s \<le> sz"
    by linarith
  then show ?case
  proof cases
    case 1
    then show ?thesis
      by (auto simp: allocate_loop_Cons dest: exhausted_before_pos)
  next
    case 2
    then have "\<not> exhausted_before (sz - length_seg s) rest"
      by (auto dest: exhausted_before_pos)
    with 2 show ?thesis
      by (simp add: allocate_loop_Cons exhausted_before_Cons)
  next
    case 3
    then have "allocate_loop sz (s # rest) acc = allocate_loop (sz - length_seg s) rest (acc @ [s])"
      by (simp add: allocate_loop_Cons)
    with 3 Cons.IH show ?thesis
      by (simp add: exhausted_before_Cons)
  qed
qed

lemma allocate_loop_failure:
  "allocate_loop sz segs acc = (Inl e, segs') \<Longrightarrow> e = SegmentAllocationError ''Out of space in the segment allocator'' \<and> segs' = []"
proof (induction segs arbitrary: sz acc)
  case Nil
  then show ?case by (auto simp: allocate_loop_Nil split: if_splits)
next
  case (Cons s rest)
  then show ?case by (auto simp: allocate_loop_Cons split: if_splits)
qed

lemma prefix_sum_le_total:
  assumes nonneg: "\<forall>s \<in> set segs. 0 \<le> length_seg s"
  shows "sum_list (map length_seg (take k segs)) \<le> sum_list (map length_seg segs)"
proof -
  have "sum_list (map length_seg segs) =
      sum_list (map length_seg (take k segs)) + sum_list (map length_seg (drop k segs))"
    by (metis append_take_drop_id map_append sum_list.append)
  moreover have "\<forall>x \<in> set (drop k segs). 0 \<le> length_seg x"
    using nonneg by (meson in_set_dropD)
  then have "0 \<le> sum_list (map length_seg (drop k segs))"
    by (intro sum_list_nonneg) auto
  ultimately show ?thesis by simp
qed

lemma exhausted_before_total:
  assumes nonneg: "\<forall>s \<in> set segs. 0 \<le> length_seg s"
  shows "exhausted_before S segs \<longleftrightarrow> sum_list (map length_seg segs) < S"
proof
  assume "exhausted_before S segs"
  then have "sum_list (map length_seg (take (length segs) segs)) < S"
    unfolding exhausted_before_def by blast
  then show "sum_list (map length_seg segs) < S" by simp
next
  assume "sum_list (map length_seg segs) < S"
  then show "exhausted_before S segs"
    unfolding exhausted_before_def using prefix_sum_le_total [OF nonneg] by (meson le_less_trans)
qed

section \<open>The size of a volume and its recorded length\<close>

lemma allocate_segments_total:
  assumes "allocate_segments a S p = (Inr result, a')"
  shows "sum_list (map length_seg result) = (if 0 < S then S else 0)"
proof -
  from assms obtain segs' where "allocate_loop S (eligible a p) [] = (Inr result, segs')"
    by (auto simp: allocate_segments_loop split: prod.splits sum.splits)
  from allocate_loop_result [OF this] show ?thesis
    by (auto split: if_splits)
qed

lemma LinearVolume_allocate_size:
  assumes "0 \<le> vol_length vol"
    and "LinearVolume_allocate vol a p = (Inr (), a', vol')"
  shows "vol_allocated vol' \<and> Volume_size vol' = vol_length vol'"
  using assms
  by (auto simp: LinearVolume_allocate_def Volume_size_def allocate_segments_total
      split: prod.splits sum.splits)

lemma LinearVolume_resize_size:
  assumes "vol_allocated vol" and "Volume_size vol = vol_length vol"
    and "LinearVolume_resize vol a new_length p = (Inr (), a', vol')"
  shows "vol_allocated vol' \<and> Volume_size vol' = vol_length vol'"
  using assms
  by (auto simp: LinearVolume_resize_def Volume_size_def allocate_segments_total
      split: prod.splits sum.splits if_splits)

section \<open>Sorting and merging the released extents\<close>

lemma merge_loop_successively:
  "merge_loop s segs merged = (s', m) \<Longrightarrow>
   successively (\<lambda>a b. \<not> adjacent a b) (merged @ [s]) \<Longrightarrow>
   successively (\<lambda>a b. \<not> adjacent a b) (m @ [s'])"
proof (induction segs arbitrary: s merged)
  case Nil
  then show ?case by simp
next
  case (Cons n segs)
  show ?case
  proof (cases "dev n = dev s \<and> offset n = offset s + length_seg s")
    case True
    let ?s = "\<lparr>dev = dev s, offset = offset s, length_seg = length_seg s + length_seg n\<rparr>"
    from True Cons.prems(1) have "merge_loop ?s segs merged = (s', m)" by simp
    moreover from Cons.prems(2) have "successively (\<lambda>a b. \<not> adjacent a b) (merged @ [?s])"
      by (simp add: successively_append_iff adjacent_def)
    ultimately show ?thesis by (rule Cons.IH)
  next
    case False
    with Cons.prems(1) have "merge_loop n segs (merged @ [s]) = (s', m)" by simp
    moreover from False Cons.prems(2)
    have "successively (\<lambda>a b. \<not> adjacent a b) ((merged @ [s]) @ [n])"
      by (subst successively_append_iff) (auto simp: adjacent_def)
    ultimately show ?thesis by (rule Cons.IH)
  qed
qed

lemma merge_loop_sorted:
  "merge_loop s segs merged = (s', m) \<Longrightarrow>
   sorted (map seg_key (merged @ s # segs)) \<Longrightarrow>
   sorted (map seg_key (m @ [s']))"
proof (induction segs arbitrary: s merged)
  case Nil
  then show ?case by simp
next
  case (Cons n segs)
  show ?case
  proof (cases "dev n = dev s \<and> offset n = offset s + length_seg s")
    case True
    let ?s = "\<lparr>dev = dev s, offset = offset s, length_seg = length_seg s + length_seg n\<rparr>"
    from True Cons.prems(1) have "merge_loop ?s segs merged = (s', m)" by simp
    moreover have "seg_key ?s = seg_key s"
      by (simp add: seg_key_def)
    with Cons.prems(2) have "sorted (map seg_key (merged @ ?s # segs))"
      by (auto simp: sorted_append)
    ultimately show ?thesis by (rule Cons.IH)
  next
    case False
    with Cons.prems(1) have "merge_loop n segs (merged @ [s]) = (s', m)" by simp
    moreover from Cons.prems(2) have "sorted (map seg_key ((merged @ [s]) @ n # segs))"
      by simp
    ultimately show ?thesis by (rule Cons.IH)
  qed
qed

lemma merge_loop_sum:
  "merge_loop s segs merged = (s', m) \<Longrightarrow>
   sum_list (map length_seg (m @ [s'])) = sum_list (map length_seg (merged @ s # segs))"
proof (induction segs arbitrary: s merged)
  case Nil
  then show ?case by simp
next
  case (Cons n segs)
  show ?case
  proof (cases "dev n = dev s \<and> offset n = offset s + length_seg s")
    case True
    let ?s = "\<lparr>dev = dev s, offset = offset s, length_seg = length_seg s + length_seg n\<rparr>"
    from True Cons.prems have "merge_loop ?s segs merged = (s', m)" by simp
    from Cons.IH [OF this] show ?thesis by simp
  next
    case False
    with Cons.prems have "merge_loop n segs (merged @ [s]) = (s', m)" by simp
    from Cons.IH [OF this] show ?thesis by simp
  qed
qed

lemma merge_loop_ends_before:
  "merge_loop s segs merged = (s', m) \<Longrightarrow>
   sorted_wrt ends_before (merged @ s # segs) \<Longrightarrow>
   \<forall>x \<in> set (merged @ s # segs). 0 < length_seg x \<Longrightarrow>
   sorted_wrt ends_before (m @ [s']) \<and> (\<forall>x \<in> set (m @ [s']). 0 < length_seg x)"
proof (induction segs arbitrary: s merged)
  case Nil
  then show ?case by simp
next
  case (Cons n segs)
  show ?case
  proof (cases "dev n = dev s \<and> offset n = offset s + length_seg s")
    case True
    let ?s = "\<lparr>dev = dev s, offset = offset s, length_seg = length_seg s + length_seg n\<rparr>"
    from True Cons.prems(1) have "merge_loop ?s segs merged = (s', m)" by simp
    moreover have "sorted_wrt ends_before (merged @ ?s # segs)"
    proof -
      have a: "ends_before p ?s" if "ends_before p s" for p
        using that by (simp add: ends_before_def)
      have b: "ends_before ?s q" if "ends_before n q" for q
        using that True by (auto simp: ends_before_def)
      from Cons.prems(2) show ?thesis
        by (auto simp: sorted_wrt_append intro: a b)
    qed
    moreover have "\<forall>x \<in> set (merged @ ?s # segs). 0 < length_seg x"
      using Cons.prems(3) by auto
    ultimately show ?thesis by (rule Cons.IH)
  next
    case False
    with Cons.prems(1) have "merge_loop n segs (merged @ [s]) = (s', m)" by simp
    moreover from Cons.prems(2) have "sorted_wrt ends_before ((merged @ [s]) @ n # segs)"
      by simp
    moreover from Cons.prems(3) have "\<forall>x \<in> set ((merged @ [s]) @ n # segs). 0 < length_seg x"
      by simp
    ultimately show ?thesis by (rule Cons.IH)
  qed
qed


lemma no_adjacent_pairs:
  "sorted_wrt ends_before R \<Longrightarrow> \<forall>x \<in> set R. 0 < length_seg x \<Longrightarrow>
   successively (\<lambda>a b. \<not> adjacent a b) R \<Longrightarrow>
   \<forall>x \<in> set R. \<forall>y \<in> set R. \<not> adjacent x y"
proof (induction R)
  case Nil
  then show ?case by simp
next
  case (Cons x xs)
  have pos: "0 < length_seg x" "\<forall>y \<in> set xs. 0 < length_seg y"
    using Cons.prems(2) by simp_all
  have eb: "\<forall>y \<in> set xs. ends_before x y" "sorted_wrt ends_before xs"
    using Cons.prems(1) by simp_all
  have succ: "successively (\<lambda>a b. \<not> adjacent a b) xs"
    using Cons.prems(3) by (cases xs) simp_all
  from Cons.IH [OF eb(2) pos(2) succ]
  have inner: "\<forall>a \<in> set xs. \<forall>b \<in> set xs. \<not> adjacent a b" .
  have irrefl: "\<not> adjacent x x"
    using pos(1) by (simp add: adjacent_def)
  have bwd: "\<not> adjacent y x" if "y \<in> set xs" for y
  proof -
    from that eb(1) have "ends_before x y" by blast
    moreover from that pos(2) have "0 < length_seg y" by blast
    ultimately show ?thesis
      using pos(1) by (auto simp: adjacent_def ends_before_def)
  qed
  have fwd: "\<not> adjacent x y" if y: "y \<in> set xs" for y
  proof (cases xs)
    case Nil
    with y show ?thesis by simp
  next
    case (Cons z zs)
    with Cons.prems(3) have xz: "\<not> adjacent x z" by simp
    show ?thesis
    proof (cases "y = z")
      case True
      with xz show ?thesis by simp
    next
      case False
      with y Cons have "y \<in> set zs" by simp
      with eb(2) Cons have zy: "ends_before z y" by simp
      from eb(1) Cons have "ends_before x z" by simp
      moreover from pos(2) Cons have "0 < length_seg z" by simp
      ultimately show ?thesis
        using zy by (auto simp: adjacent_def ends_before_def)
    qed
  qed
  from inner irrefl bwd fwd show ?case by auto
qed

lemma ends_before_if_sorted:
  "seg_key a \<le> seg_key b \<Longrightarrow> \<not> overlaps a b \<Longrightarrow> 0 < length_seg a \<Longrightarrow> 0 < length_seg b \<Longrightarrow>
   ends_before a b"
  by (auto simp: seg_key_def overlaps_def ends_before_def less_eq_prod_def)

lemma sorted_wrt_ends_before:
  "sorted (map seg_key L) \<Longrightarrow> non_overlapping L \<Longrightarrow> \<forall>x \<in> set L. 0 < length_seg x \<Longrightarrow>
   sorted_wrt ends_before L"
proof (induction L)
  case Nil
  then show ?case by simp
next
  case (Cons x xs)
  then show ?case
    by (auto simp: non_overlapping_def intro: ends_before_if_sorted)
qed

lemma overlaps_sym: "overlaps a b \<Longrightarrow> overlaps b a"
  by (auto simp: overlaps_def)

lemma overlaps_self: "0 < length_seg a \<Longrightarrow> overlaps a a"
  by (simp add: overlaps_def)

lemma non_overlapping_iff_distinct:
  "\<forall>x \<in> set xs. 0 < length_seg x \<Longrightarrow>
   non_overlapping xs \<longleftrightarrow>
     distinct xs \<and> (\<forall>a \<in> set xs. \<forall>b \<in> set xs. a \<noteq> b \<longrightarrow> \<not> overlaps a b)"
proof (induction xs)
  case Nil
  show ?case by (simp add: non_overlapping_def)
next
  case (Cons x xs)
  then have IH: "non_overlapping xs \<longleftrightarrow>
     distinct xs \<and> (\<forall>a \<in> set xs. \<forall>b \<in> set xs. a \<noteq> b \<longrightarrow> \<not> overlaps a b)"
    by simp
  have step: "non_overlapping (x # xs) \<longleftrightarrow> (\<forall>y \<in> set xs. \<not> overlaps x y) \<and> non_overlapping xs"
    by (simp add: non_overlapping_def)
  have self: "overlaps x x"
    using Cons.prems by (simp add: overlaps_self)
  show ?case
  proof
    assume "non_overlapping (x # xs)"
    with step IH self show "distinct (x # xs) \<and>
        (\<forall>a \<in> set (x # xs). \<forall>b \<in> set (x # xs). a \<noteq> b \<longrightarrow> \<not> overlaps a b)"
      by (auto dest: overlaps_sym)
  next
    assume "distinct (x # xs) \<and>
        (\<forall>a \<in> set (x # xs). \<forall>b \<in> set (x # xs). a \<noteq> b \<longrightarrow> \<not> overlaps a b)"
    with step IH show "non_overlapping (x # xs)"
      by auto
  qed
qed

lemma non_overlapping_sort_key:
  assumes "\<forall>x \<in> set xs. 0 < length_seg x" and "non_overlapping xs"
  shows "non_overlapping (sort_key seg_key xs)"
proof -
  have "\<forall>x \<in> set (sort_key seg_key xs). 0 < length_seg x"
    using assms(1) by simp
  from non_overlapping_iff_distinct [OF this] non_overlapping_iff_distinct [OF assms(1)] assms(2)
  show ?thesis by simp
qed

lemma sum_list_insort_key:
  "sum_list (map f (insort_key k x xs)) = f x + sum_list (map f xs)"
  for f :: "'a \<Rightarrow> int" and k :: "'a \<Rightarrow> 'b::linorder"
  by (induction xs) simp_all

lemma sum_list_sort_key:
  "sum_list (map f (sort_key k xs)) = sum_list (map f xs)"
  for f :: "'a \<Rightarrow> int" and k :: "'a \<Rightarrow> 'b::linorder"
  by (induction xs) (simp_all add: sum_list_insort_key)

text \<open>
  Conservation: whenever the pool or the released list has an entry,
  \<^verbatim>\<open>release_segments\<close> returns and the free space grows by the released lengths.
\<close>

lemma release_segments_conservation:
  assumes "free_segments a @ X \<noteq> []"
  shows "fst (release_segments a X) = Inr ()
     \<and> free_space (snd (release_segments a X)) = free_space a + sum_list (map length_seg X)"
proof -
  let ?L = "sort_key seg_key (free_segments a @ X)"
  from assms have "?L \<noteq> []"
    by (metis length_sort length_0_conv)
  then obtain s rest where L: "?L = s # rest"
    by (cases ?L) auto
  obtain s' m where loop: "merge_loop s rest [] = (s', m)"
    by (cases "merge_loop s rest []") auto
  from L loop have rel: "release_segments a X = (Inr (), a\<lparr>free_segments := m @ [s']\<rparr>)"
    by (simp add: release_segments_def merge_segs_def Let_def)
  have "sum_list (map length_seg (m @ [s'])) = sum_list (map length_seg ?L)"
    using merge_loop_sum [OF loop] L by simp
  also have "\<dots> = sum_list (map length_seg (free_segments a @ X))"
    by (rule sum_list_sort_key)
  finally show ?thesis
    using rel by (simp add: free_space_def)
qed

section \<open>Runs, covered space and the uniqueness of the merged pool\<close>

lemma join_run_Nil: "join_run n [] = n"
  by (simp add: join_run_def)

lemma join_run_snoc:
  "join_run h (t @ [n]) =
     \<lparr>dev = dev (join_run h t), offset = offset (join_run h t),
      length_seg = length_seg (join_run h t) + length_seg n\<rparr>"
  by (simp add: join_run_def)

lemma chain_end:
  "successively adjacent (h # t) \<Longrightarrow>
   dev (last (h # t)) = dev h \<and>
   offset (last (h # t)) + length_seg (last (h # t)) =
     offset h + length_seg h + sum_list (map length_seg t)"
proof (induction t arbitrary: h)
  case Nil
  then show ?case by simp
next
  case (Cons n t)
  from Cons.prems have adj: "adjacent h n" and rest: "successively adjacent (n # t)"
    by simp_all
  from Cons.IH [OF rest] adj show ?case
    by (simp add: adjacent_def)
qed

lemma chain_snoc:
  assumes "successively adjacent (h # t)"
    and "dev n = dev (join_run h t) \<and> offset n = offset (join_run h t) + length_seg (join_run h t)"
  shows "successively adjacent (h # t @ [n])"
proof -
  from chain_end [OF assms(1)] assms(2) have "adjacent (last (h # t)) n"
    by (simp add: adjacent_def join_run_def)
  with assms(1) have "successively adjacent ((h # t) @ [n])"
    by (subst successively_append_iff) simp
  then show ?thesis by simp
qed

lemma merge_loop_runs:
  "merge_loop (join_run h t) segs merged = (s', m) \<Longrightarrow>
   successively adjacent (h # t) \<Longrightarrow>
   \<exists>runs. concat (map (\<lambda>(h, t). h # t) runs) = (h # t) @ segs
     \<and> list_all (\<lambda>(h, t). successively adjacent (h # t)) runs
     \<and> m @ [s'] = merged @ map (\<lambda>(h, t). join_run h t) runs"
proof (induction segs arbitrary: h t merged)
  case Nil
  then show ?case
    by (intro exI [of _ "[(h, t)]"]) simp
next
  case (Cons n segs)
  let ?s = "join_run h t"
  show ?case
  proof (cases "dev n = dev ?s \<and> offset n = offset ?s + length_seg ?s")
    case True
    with Cons.prems(1) have "merge_loop (join_run h (t @ [n])) segs merged = (s', m)"
      by (simp add: join_run_snoc)
    moreover have "successively adjacent (h # t @ [n])"
      using Cons.prems(2) True by (rule chain_snoc)
    ultimately obtain runs where
      "concat (map (\<lambda>(h, t). h # t) runs) = (h # t @ [n]) @ segs"
      "list_all (\<lambda>(h, t). successively adjacent (h # t)) runs"
      "m @ [s'] = merged @ map (\<lambda>(h, t). join_run h t) runs"
      using Cons.IH [of h "t @ [n]" merged] by blast
    then show ?thesis
      by (intro exI [of _ runs]) simp
  next
    case False
    with Cons.prems(1) have "merge_loop (join_run n []) segs (merged @ [?s]) = (s', m)"
      by (simp add: join_run_Nil)
    moreover have "successively adjacent (n # [])" by simp
    ultimately obtain runs where
      "concat (map (\<lambda>(h, t). h # t) runs) = (n # []) @ segs"
      "list_all (\<lambda>(h, t). successively adjacent (h # t)) runs"
      "m @ [s'] = (merged @ [?s]) @ map (\<lambda>(h, t). join_run h t) runs"
      using Cons.IH [of n "[]" "merged @ [?s]"] by blast
    with Cons.prems(2) show ?thesis
      by (intro exI [of _ "(h, t) # runs"]) simp
  qed
qed

lemma covers_Nil: "covers [] d x = False"
  by (simp add: covers_def)

lemma covers_Cons:
  "covers (s # segs) d x \<longleftrightarrow>
     (dev s = d \<and> offset s \<le> x \<and> x < offset s + length_seg s) \<or> covers segs d x"
  by (simp add: covers_def)

lemma covers_append: "covers (xs @ ys) d x \<longleftrightarrow> covers xs d x \<or> covers ys d x"
  by (auto simp: covers_def)

lemma covers_set: "set xs = set ys \<Longrightarrow> covers xs d x = covers ys d x"
  by (simp add: covers_def)

lemma merge_loop_covers:
  "merge_loop s segs merged = (s', m) \<Longrightarrow>
   \<forall>y \<in> set (s # segs). 0 \<le> length_seg y \<Longrightarrow>
   covers (m @ [s']) d x = covers (merged @ s # segs) d x"
proof (induction segs arbitrary: s merged)
  case Nil
  then show ?case by simp
next
  case (Cons n segs)
  show ?case
  proof (cases "dev n = dev s \<and> offset n = offset s + length_seg s")
    case True
    let ?s = "\<lparr>dev = dev s, offset = offset s, length_seg = length_seg s + length_seg n\<rparr>"
    from True Cons.prems(1) have "merge_loop ?s segs merged = (s', m)" by simp
    moreover from Cons.prems(2) have "\<forall>y \<in> set (?s # segs). 0 \<le> length_seg y" by simp
    ultimately have "covers (m @ [s']) d x = covers (merged @ ?s # segs) d x"
      by (rule Cons.IH)
    also have "\<dots> = covers (merged @ s # n # segs) d x"
      using True Cons.prems(2) by (auto simp: covers_append covers_Cons)
    finally show ?thesis .
  next
    case False
    with Cons.prems(1) have "merge_loop n segs (merged @ [s]) = (s', m)" by simp
    moreover from Cons.prems(2) have "\<forall>y \<in> set (n # segs). 0 \<le> length_seg y" by simp
    ultimately have "covers (m @ [s']) d x = covers ((merged @ [s]) @ n # segs) d x"
      by (rule Cons.IH)
    then show ?thesis by simp
  qed
qed


lemma ends_before_not_overlaps: "ends_before a b \<Longrightarrow> \<not> overlaps a b"
  by (auto simp: ends_before_def overlaps_def)

lemma non_overlapping_if_ends_before: "sorted_wrt ends_before R \<Longrightarrow> non_overlapping R"
  unfolding non_overlapping_def
  by (erule sorted_wrt_mono_rel [rotated]) (rule ends_before_not_overlaps)

lemma strictly_before_if_not_adjacent:
  "ends_before a b \<Longrightarrow> \<not> adjacent a b \<Longrightarrow> strictly_before a b"
  by (auto simp: ends_before_def adjacent_def strictly_before_def)

lemma sorted_wrt_strictly_before:
  assumes "sorted (map seg_key R)" and "\<forall>s \<in> set R. 0 < length_seg s"
    and "non_overlapping R" and "\<forall>x \<in> set R. \<forall>y \<in> set R. \<not> adjacent x y"
  shows "sorted_wrt strictly_before R"
proof -
  from assms(1,3,2) have "sorted_wrt ends_before R"
    by (rule sorted_wrt_ends_before)
  then show ?thesis
    by (rule sorted_wrt_mono_rel [rotated]) (use assms(4) in \<open>blast intro: strictly_before_if_not_adjacent\<close>)
qed

lemma first_covered:
  "0 < length_seg a \<Longrightarrow> covers (a # as) (dev a) (offset a)"
  by (simp add: covers_Cons)

lemma first_least:
  assumes "\<forall>s \<in> set as. strictly_before a s" and "0 < length_seg a"
    and "covers (a # as) d x"
  shows "dev a < d \<or> (dev a = d \<and> offset a \<le> x)"
proof (cases "dev a = d \<and> offset a \<le> x \<and> x < offset a + length_seg a")
  case True
  then show ?thesis by simp
next
  case False
  with assms(3) obtain s where s: "s \<in> set as" "dev s = d" "offset s \<le> x"
    by (auto simp: covers_Cons covers_def)
  with assms(1) have "strictly_before a s" by blast
  with s assms(2) show ?thesis
    by (auto simp: strictly_before_def)
qed

lemma tail_not_covering:
  assumes "\<forall>s \<in> set as. strictly_before a s" and "0 < length_seg a"
    and "x \<le> offset a + length_seg a"
  shows "\<not> covers as (dev a) x"
proof
  assume "covers as (dev a) x"
  then obtain s where s: "s \<in> set as" "dev s = dev a" "offset s \<le> x"
    by (auto simp: covers_def)
  with assms(1) have "strictly_before a s" by blast
  with s assms(3) show False
    by (auto simp: strictly_before_def)
qed

lemma covers_tail:
  assumes "\<forall>s \<in> set as. strictly_before a s" and "0 < length_seg a"
  shows "covers as d x \<longleftrightarrow>
     covers (a # as) d x \<and> \<not> (dev a = d \<and> offset a \<le> x \<and> x < offset a + length_seg a)"
  using tail_not_covering [OF assms, of x] by (auto simp: covers_Cons)

lemma maximal_disjoint_unique:
  "sorted_wrt strictly_before R \<Longrightarrow> sorted_wrt strictly_before R' \<Longrightarrow>
   \<forall>s \<in> set R. 0 < length_seg s \<Longrightarrow> \<forall>s \<in> set R'. 0 < length_seg s \<Longrightarrow>
   \<forall>d x. covers R d x = covers R' d x \<Longrightarrow> R = R'"
proof (induction R arbitrary: R')
  case Nil
  show ?case
  proof (cases R')
    case Nil
    then show ?thesis by simp
  next
    case (Cons b bs)
    with Nil.prems(4) have "covers R' (dev b) (offset b)"
      by (simp add: first_covered)
    with Nil.prems(5) show ?thesis by (simp add: covers_Nil)
  qed
next
  case (Cons a as)
  have a_pos: "0 < length_seg a" and as_pos: "\<forall>s \<in> set as. 0 < length_seg s"
    using Cons.prems(3) by simp_all
  have a_sb: "\<forall>s \<in> set as. strictly_before a s" and as_sb: "sorted_wrt strictly_before as"
    using Cons.prems(1) by simp_all
  show ?case
  proof (cases R')
    case Nil
    from a_pos have "covers (a # as) (dev a) (offset a)" by (rule first_covered)
    with Cons.prems(5) Nil show ?thesis by (simp add: covers_Nil)
  next
    case R': (Cons b bs)
    have b_pos: "0 < length_seg b" and bs_pos: "\<forall>s \<in> set bs. 0 < length_seg s"
      using Cons.prems(4) R' by simp_all
    have b_sb: "\<forall>s \<in> set bs. strictly_before b s" and bs_sb: "sorted_wrt strictly_before bs"
      using Cons.prems(2) R' by simp_all
    have eq: "covers (a # as) d x = covers (b # bs) d x" for d x
      using Cons.prems(5) R' by simp
    have "covers (a # as) (dev a) (offset a)"
      using a_pos by (rule first_covered)
    then have "covers (b # bs) (dev a) (offset a)"
      using eq by blast
    from first_least [OF b_sb b_pos this]
    have ba: "dev b < dev a \<or> (dev b = dev a \<and> offset b \<le> offset a)" .
    have "covers (b # bs) (dev b) (offset b)"
      using b_pos by (rule first_covered)
    then have "covers (a # as) (dev b) (offset b)"
      using eq by blast
    from first_least [OF a_sb a_pos this]
    have ab: "dev a < dev b \<or> (dev a = dev b \<and> offset a \<le> offset b)" .
    from ab ba have start: "dev a = dev b" "offset a = offset b"
      by auto
    have len: "length_seg a = length_seg b"
    proof (rule ccontr)
      assume ne: "length_seg a \<noteq> length_seg b"
      show False
      proof (cases "length_seg a < length_seg b")
        case True
        with start a_pos have "covers (b # bs) (dev a) (offset a + length_seg a)"
          by (simp add: covers_Cons)
        with eq have "covers (a # as) (dev a) (offset a + length_seg a)" by simp
        with tail_not_covering [OF a_sb a_pos, of "offset a + length_seg a"]
        show False by (simp add: covers_Cons)
      next
        case False
        with ne have "length_seg b < length_seg a" by simp
        with start b_pos have "covers (a # as) (dev b) (offset b + length_seg b)"
          by (simp add: covers_Cons)
        with eq have "covers (b # bs) (dev b) (offset b + length_seg b)" by simp
        with tail_not_covering [OF b_sb b_pos, of "offset b + length_seg b"]
        show False by (simp add: covers_Cons)
      qed
    qed
    from start len have ab_eq: "a = b" by simp
    have "covers as d x = covers bs d x" for d x
      using covers_tail [OF a_sb a_pos, of d x] covers_tail [OF b_sb b_pos, of d x] eq [of d x] ab_eq
      by simp
    then have "as = bs"
      using Cons.IH [OF as_sb bs_sb as_pos bs_pos] by blast
    with ab_eq R' show ?thesis by simp
  qed
qed


lemma unique_representation:
  assumes "sorted (map seg_key R)" and "\<forall>s \<in> set R. 0 < length_seg s"
    and "non_overlapping R" and "\<forall>x \<in> set R. \<forall>y \<in> set R. \<not> adjacent x y"
    and "sorted (map seg_key R')" and "\<forall>s \<in> set R'. 0 < length_seg s"
    and "non_overlapping R'" and "\<forall>x \<in> set R'. \<forall>y \<in> set R'. \<not> adjacent x y"
    and "\<forall>d x. covers R' d x = covers R d x"
  shows "R' = R"
proof -
  have "sorted_wrt strictly_before R"
    using assms(1-4) by (rule sorted_wrt_strictly_before)
  moreover have "sorted_wrt strictly_before R'"
    using assms(5-8) by (rule sorted_wrt_strictly_before)
  ultimately show ?thesis
    using assms(2,6,9) by (intro maximal_disjoint_unique [of R' R]) auto
qed

lemma release_segments_cases:
  "(free_segments a @ X = [] \<and> pool_after_release a X = [])
   \<or> (\<exists>s rest s' m. sort_key seg_key (free_segments a @ X) = s # rest
         \<and> merge_loop s rest [] = (s', m) \<and> pool_after_release a X = m @ [s'])"
proof (cases "sort_key seg_key (free_segments a @ X)")
  case Nil
  then have "free_segments a @ X = []"
    by (metis length_sort length_0_conv)
  with Nil show ?thesis
    by (simp add: pool_after_release_def release_segments_def merge_segs_def)
next
  case (Cons s rest)
  obtain s' m where "merge_loop s rest [] = (s', m)"
    by (cases "merge_loop s rest []") auto
  with Cons show ?thesis
    by (simp add: pool_after_release_def release_segments_def merge_segs_def Let_def)
qed

lemma release_segments_free_space:
  "free_space (snd (release_segments a X)) = free_space a + sum_list (map length_seg X)"
proof (cases "free_segments a @ X = []")
  case True
  then show ?thesis
    by (simp add: release_segments_def merge_segs_def free_space_def)
next
  case False
  then show ?thesis by (simp add: release_segments_conservation)
qed

section \<open>The claims\<close>

text \<open>
  C1. The claim: after a successful \<^verbatim>\<open>allocate_segments\<close> with a predicate, every free
  entry that does not satisfy the predicate is still in the pool. The code assigns what
  is left of the filtered list to the pool: with the pool [("d0", 0, 10), ("d1", 0, 10)],
  a request of 5 restricted to device "d1" returns ("d1", 0, 5) and leaves the pool
  [("d1", 5, 5)]. The entry on "d0" is gone and free space falls from 20 to 5.
\<close>

theorem C1_predicate_drops_other_entries:
  "allocate_segments
     \<lparr>free_segments = [\<lparr>dev = ''d0'', offset = 0, length_seg = 10\<rparr>,
                       \<lparr>dev = ''d1'', offset = 0, length_seg = 10\<rparr>]\<rparr>
     5 (Some (on_device ''d1''))
   = (Inr [\<lparr>dev = ''d1'', offset = 0, length_seg = 5\<rparr>],
      \<lparr>free_segments = [\<lparr>dev = ''d1'', offset = 5, length_seg = 5\<rparr>]\<rparr>)"
  by (simp add: allocate_eval on_device_def)

text \<open>
  C2. The claim: \<^verbatim>\<open>VM.resize("v", 50)\<close> succeeds on the scenario and leaves a volume of
  size 50 with two targets and 50 free. The code raises \<^verbatim>\<open>NameError\<close> after the
  existence check, and the manager is as before: the volume still has size 30 and 70
  are free.
\<close>

theorem C2_resize_raises_name_error:
  "VM_resize scenario_vm ''v'' 50 None = (Inl (NameError ''segment_preicate''), scenario_vm)
   \<and> VM_size scenario_vm ''v'' = (Inr 30, scenario_vm)
   \<and> VM_free_space scenario_vm = 70"
  by (simp add: scenario_queries)
     (simp add: VM_resize_def check_exists_def volumes_getitem_def scenario_vm_eq)

text \<open>
  C3. The claim: \<^verbatim>\<open>release_segments\<close> succeeds for every pool and every list, the
  empty pool and the empty list included. On the empty pool, releasing the empty list
  raises \<^verbatim>\<open>IndexError\<close>: \<^verbatim>\<open>_merge\<close> pops from an empty list.
\<close>

theorem C3_release_nothing_into_empty_pool_raises:
  "release_segments Allocator_init [] = (Inl IndexError, Allocator_init)"
  by (simp add: release_segments_def merge_segs_def Allocator_init_def)

text \<open>
  C4. The claim: \<^verbatim>\<open>VM.size\<close>, \<^verbatim>\<open>VM.segments\<close> and \<^verbatim>\<open>VM.targets\<close> raise
  \<^verbatim>\<open>VolumeError\<close> on an unknown name. \<^verbatim>\<open>VM.size\<close> has no existence check and raises
  \<^verbatim>\<open>KeyError\<close> from the dictionary read, where the two other queries raise
  \<^verbatim>\<open>VolumeError\<close>.
\<close>

theorem C4_size_of_unknown_name_raises_key_error:
  "VM_size VM_init ''v'' = (Inl (KeyError ''v''), VM_init)
   \<and> VM_segments VM_init ''v'' = (Inl (VolumeError (''Volume '' @ [CHR 0x27] @ ''v'' @ [CHR 0x27] @ '' doesn'' @ [CHR 0x27] @ ''t exist'')),
        VM_init)"
  by (simp add: VM_size_def VM_segments_def check_exists_def volumes_getitem_def VM_init_def)

text \<open>
  C5. For a pool of pairwise non-overlapping entries and a size \<open>S > 0\<close>, a successful
  \<^verbatim>\<open>allocate_segments(S, predicate)\<close> returns pairwise non-overlapping extents whose
  lengths sum to exactly \<open>S\<close>, each of them a sub-range of an entry that was in the pool.
\<close>

theorem C5_partition:
  assumes "0 < S" and "non_overlapping (free_segments a)"
    and "allocate_segments a S p = (Inr result, a')"
  shows "non_overlapping result \<and> sum_list (map length_seg result) = S \<and>
         (\<forall>r \<in> set result. \<exists>f \<in> set (free_segments a). sub_range r f)"
proof -
  from assms(3) obtain segs' where "allocate_loop S (eligible a p) [] = (Inr result, segs')"
    by (auto simp: allocate_segments_loop split: prod.splits sum.splits)
  from allocate_loop_result [OF this] assms(1)
  have sub: "list_all2 sub_range result (take (length result) (eligible a p))"
    and total: "sum_list (map length_seg result) = S"
    by auto
  have "non_overlapping (take (length result) (eligible a p))"
    using assms(2) by (simp add: non_overlapping_eligible non_overlapping_take)
  with sub have "non_overlapping result"
    by (rule non_overlapping_sub_ranges)
  moreover have "\<exists>f \<in> set (free_segments a). sub_range r f" if "r \<in> set result" for r
    using sub_range_in_pool [OF sub that] set_eligible [of a p] by blast
  ultimately show ?thesis using total by blast
qed


theorem C5_partition_witness:
  "0 < (15::int)
   \<and> non_overlapping [\<lparr>dev = ''d0'', offset = 0, length_seg = 10\<rparr>,
                      \<lparr>dev = ''d1'', offset = 0, length_seg = 10\<rparr>]
   \<and> allocate_segments
        \<lparr>free_segments = [\<lparr>dev = ''d0'', offset = 0, length_seg = 10\<rparr>,
                          \<lparr>dev = ''d1'', offset = 0, length_seg = 10\<rparr>]\<rparr> 15 None
      = (Inr [\<lparr>dev = ''d0'', offset = 0, length_seg = 10\<rparr>,
              \<lparr>dev = ''d1'', offset = 0, length_seg = 5\<rparr>],
         \<lparr>free_segments = [\<lparr>dev = ''d1'', offset = 5, length_seg = 5\<rparr>]\<rparr>)
   \<and> non_overlapping [\<lparr>dev = ''d0'', offset = 0, length_seg = 10\<rparr>,
                      \<lparr>dev = ''d1'', offset = 0, length_seg = 5\<rparr>]
   \<and> sum_list (map length_seg [\<lparr>dev = ''d0'', offset = 0, length_seg = 10\<rparr>,
                                \<lparr>dev = ''d1'', offset = 0, length_seg = 5\<rparr>]) = 15
   \<and> sub_range \<lparr>dev = ''d1'', offset = 0, length_seg = 5\<rparr>
                \<lparr>dev = ''d1'', offset = 0, length_seg = 10\<rparr>"
proof -
  let ?a = "\<lparr>free_segments = [\<lparr>dev = ''d0'', offset = 0, length_seg = 10\<rparr>,
                              \<lparr>dev = ''d1'', offset = 0, length_seg = 10\<rparr>]\<rparr>"
  have h1: "0 < (15::int)" by simp
  have h2: "non_overlapping (free_segments ?a)"
    by (simp add: non_overlapping_def overlaps_def)
  have h3: "allocate_segments ?a 15 None
      = (Inr [\<lparr>dev = ''d0'', offset = 0, length_seg = 10\<rparr>,
              \<lparr>dev = ''d1'', offset = 0, length_seg = 5\<rparr>],
         \<lparr>free_segments = [\<lparr>dev = ''d1'', offset = 5, length_seg = 5\<rparr>]\<rparr>)"
    by (simp add: allocate_eval)
  from C5_partition [OF h1 h2 h3] h2 h3 show ?thesis
    by (simp add: sub_range_def)
qed

text \<open>
  C6. The claim: a failed allocation leaves the entries it popped out of the free pool.
  That holds without a predicate, where the loop pops from the pool's own list. With a
  predicate the loop pops from a filtered copy, and the failed call leaves the pool as
  it was: the entry ("d0", 0, 10) is still free after the failure.
\<close>

theorem C6_failure_with_predicate_keeps_pool:
  "allocate_segments \<lparr>free_segments = [\<lparr>dev = ''d0'', offset = 0, length_seg = 10\<rparr>]\<rparr>
     20 (Some (on_device ''d0''))
   = (Inl (SegmentAllocationError ''Out of space in the segment allocator''),
      \<lparr>free_segments = [\<lparr>dev = ''d0'', offset = 0, length_seg = 10\<rparr>]\<rparr>)"
  by (simp add: allocate_eval on_device_def)

text \<open>
  C6, as amended. For \<open>S > 0\<close>, \<^verbatim>\<open>allocate_segments(S, predicate)\<close> raises if and only if
  the eligible pool is exhausted before the accumulated length reaches \<open>S\<close> (for
  entries of non-negative length: if and only if the eligible pool sums to less than
  \<open>S\<close>); the exception is always \<^verbatim>\<open>SegmentAllocationError\<close>; after the failure the
  pool is empty when no predicate was given, and unchanged when one was.
\<close>

theorem C6_allocation_failure:
  assumes "0 < S"
  shows "((\<exists>e. fst (allocate_segments a S p) = Inl e) \<longleftrightarrow> exhausted_before S (eligible a p))
    \<and> ((\<forall>s \<in> set (eligible a p). 0 \<le> length_seg s) \<longrightarrow>
         ((\<exists>e. fst (allocate_segments a S p) = Inl e)
            \<longleftrightarrow> sum_list (map length_seg (eligible a p)) < S))
    \<and> (\<forall>e. fst (allocate_segments a S p) = Inl e \<longrightarrow>
         e = SegmentAllocationError ''Out of space in the segment allocator'' \<and>
         snd (allocate_segments a S p) =
           (case p of None \<Rightarrow> a\<lparr>free_segments := []\<rparr> | Some q \<Rightarrow> a))"
proof -
  have iff: "(\<exists>e. fst (allocate_segments a S p) = Inl e) \<longleftrightarrow> exhausted_before S (eligible a p)"
  proof -
    have "(\<exists>e. fst (allocate_segments a S p) = Inl e)
        \<longleftrightarrow> (\<exists>e segs'. allocate_loop S (eligible a p) [] = (Inl e, segs'))"
      by (auto simp: allocate_segments_loop split: prod.splits sum.splits)
    then show ?thesis by (simp add: allocate_loop_fails_iff)
  qed
  have fail: "e = SegmentAllocationError ''Out of space in the segment allocator'' \<and>
      snd (allocate_segments a S p) = (case p of None \<Rightarrow> a\<lparr>free_segments := []\<rparr> | Some q \<Rightarrow> a)"
    if "fst (allocate_segments a S p) = Inl e" for e
  proof -
    from that obtain segs' where l: "allocate_loop S (eligible a p) [] = (Inl e, segs')"
      by (auto simp: allocate_segments_loop split: prod.splits sum.splits)
    from allocate_loop_failure [OF l] l show ?thesis
      by (simp add: allocate_segments_loop)
  qed
  from iff fail show ?thesis
    by (simp add: exhausted_before_total)
qed

theorem C6_allocation_failure_witness:
  "0 < (25::int)
   \<and> exhausted_before 25 [\<lparr>dev = ''d0'', offset = 0, length_seg = 10\<rparr>,
                           \<lparr>dev = ''d1'', offset = 0, length_seg = 10\<rparr>]
   \<and> allocate_segments
        \<lparr>free_segments = [\<lparr>dev = ''d0'', offset = 0, length_seg = 10\<rparr>,
                          \<lparr>dev = ''d1'', offset = 0, length_seg = 10\<rparr>]\<rparr> 25 None
      = (Inl (SegmentAllocationError ''Out of space in the segment allocator''),
         \<lparr>free_segments = []\<rparr>)"
proof -
  let ?a = "\<lparr>free_segments = [\<lparr>dev = ''d0'', offset = 0, length_seg = 10\<rparr>,
                              \<lparr>dev = ''d1'', offset = 0, length_seg = 10\<rparr>]\<rparr>"
  have h1: "0 < (25::int)" by simp
  have h2: "\<forall>s \<in> set (eligible ?a None). 0 \<le> length_seg s"
    by (simp add: eligible_def)
  have h3: "sum_list (map length_seg (eligible ?a None)) < 25"
    by (simp add: eligible_def)
  from C6_allocation_failure [OF h1, of ?a None] h2 h3
  have fails: "\<exists>e. fst (allocate_segments ?a 25 None) = Inl e"
    and ex: "exhausted_before 25 (eligible ?a None)"
    by blast+
  from fails obtain e where e: "fst (allocate_segments ?a 25 None) = Inl e" ..
  with C6_allocation_failure [OF h1, of ?a None]
  have "e = SegmentAllocationError ''Out of space in the segment allocator''"
    and "snd (allocate_segments ?a 25 None) = ?a\<lparr>free_segments := []\<rparr>"
    by simp_all
  with e ex show ?thesis
    by (simp add: eligible_def prod_eq_iff)
qed

text \<open>
  C7. The claim: after \<^verbatim>\<open>release_segments(X)\<close> no two entries of the pool are on one
  device with the first ending where the second starts, for every pool and every \<open>X\<close>.
  \<^verbatim>\<open>_merge\<close> compares each entry with the run that precedes it in the sorted list only.
  Releasing ("d0", 0, 10), ("d0", 10, 5) and ("d0", 5, 1) into the empty pool sorts
  ("d0", 5, 1) between the two others, merges nothing, and leaves ("d0", 0, 10) and
  ("d0", 10, 5) in the pool.
\<close>

theorem C7_overlapping_release_keeps_adjacent_entries:
  "release_segments Allocator_init
     [\<lparr>dev = ''d0'', offset = 0, length_seg = 10\<rparr>,
      \<lparr>dev = ''d0'', offset = 10, length_seg = 5\<rparr>,
      \<lparr>dev = ''d0'', offset = 5, length_seg = 1\<rparr>]
   = (Inr (), \<lparr>free_segments = [\<lparr>dev = ''d0'', offset = 0, length_seg = 10\<rparr>,
                                \<lparr>dev = ''d0'', offset = 5, length_seg = 1\<rparr>,
                                \<lparr>dev = ''d0'', offset = 10, length_seg = 5\<rparr>]\<rparr>)
   \<and> adjacent \<lparr>dev = ''d0'', offset = 0, length_seg = 10\<rparr>
               \<lparr>dev = ''d0'', offset = 10, length_seg = 5\<rparr>"
  by (simp add: release_segments_def merge_segs_def Allocator_init_def seg_key_def adjacent_def)

text \<open>
  C7, as amended. After \<^verbatim>\<open>release_segments(X)\<close>, for every pool and every \<open>X\<close>, the pool
  is the list of the pool's and \<open>X\<close>'s entries, sorted by (device, offset), cut into runs
  of consecutive adjacent entries with every run merged into a single entry; the runs
  are maximal, since no entry of the result is adjacent to the entry that follows it; the
  result is sorted, and the free space has grown by the lengths of \<open>X\<close>. When the entries
  of the pool and of \<open>X\<close> have positive length and are pairwise non-overlapping, the
  resulting pool has these two properties as well, no two of its entries at all are
  adjacent, it represents the same space as the pool and \<open>X\<close> together, and it is the
  only sorted list of that kind which does: the unique maximal disjoint representation.
\<close>

theorem C7_release_sorted_and_merged:
  "sorted (map seg_key (pool_after_release a X))
   \<and> successively (\<lambda>x y. \<not> adjacent x y) (pool_after_release a X)
   \<and> (\<exists>runs. concat (map (\<lambda>(h, t). h # t) runs) = sort_key seg_key (free_segments a @ X)
         \<and> list_all (\<lambda>(h, t). successively adjacent (h # t)) runs
         \<and> pool_after_release a X = map (\<lambda>(h, t). join_run h t) runs)
   \<and> free_space (snd (release_segments a X)) = free_space a + sum_list (map length_seg X)
   \<and> ((\<forall>s \<in> set (free_segments a @ X). 0 < length_seg s)
        \<and> non_overlapping (free_segments a @ X) \<longrightarrow>
        (\<forall>s \<in> set (pool_after_release a X). 0 < length_seg s)
        \<and> non_overlapping (pool_after_release a X)
        \<and> (\<forall>x \<in> set (pool_after_release a X).
              \<forall>y \<in> set (pool_after_release a X). \<not> adjacent x y)
        \<and> (\<forall>d x. covers (pool_after_release a X) d x = covers (free_segments a @ X) d x)
        \<and> (\<forall>R'. sorted (map seg_key R') \<and> (\<forall>s \<in> set R'. 0 < length_seg s)
                 \<and> non_overlapping R' \<and> (\<forall>x \<in> set R'. \<forall>y \<in> set R'. \<not> adjacent x y)
                 \<and> (\<forall>d x. covers R' d x = covers (free_segments a @ X) d x)
               \<longrightarrow> R' = pool_after_release a X))"
proof -
  let ?P = "free_segments a @ X"
  let ?L = "sort_key seg_key ?P"
  let ?R = "pool_after_release a X"
  have sorted_R: "sorted (map seg_key ?R)"
    and succ_R: "successively (\<lambda>x y. \<not> adjacent x y) ?R"
    and runs_R: "\<exists>runs. concat (map (\<lambda>(h, t). h # t) runs) = ?L
         \<and> list_all (\<lambda>(h, t). successively adjacent (h # t)) runs
         \<and> ?R = map (\<lambda>(h, t). join_run h t) runs"
    and disjoint_R: "(\<forall>s \<in> set ?P. 0 < length_seg s) \<and> non_overlapping ?P \<longrightarrow>
        (\<forall>s \<in> set ?R. 0 < length_seg s) \<and> sorted_wrt ends_before ?R
        \<and> (\<forall>d x. covers ?R d x = covers ?P d x)"
  proof -
    from release_segments_cases [of a X]
    consider "?P = []" "?R = []"
      | s rest s' m where "?L = s # rest" "merge_loop s rest [] = (s', m)" "?R = m @ [s']"
      by blast
    then have "sorted (map seg_key ?R) \<and> successively (\<lambda>x y. \<not> adjacent x y) ?R
        \<and> (\<exists>runs. concat (map (\<lambda>(h, t). h # t) runs) = ?L
             \<and> list_all (\<lambda>(h, t). successively adjacent (h # t)) runs
             \<and> ?R = map (\<lambda>(h, t). join_run h t) runs)
        \<and> ((\<forall>s \<in> set ?P. 0 < length_seg s) \<and> non_overlapping ?P \<longrightarrow>
            (\<forall>s \<in> set ?R. 0 < length_seg s) \<and> sorted_wrt ends_before ?R
            \<and> (\<forall>d x. covers ?R d x = covers ?P d x))"
    proof cases
      case 1
      then show ?thesis by simp
    next
      case 2
      have sorted_L: "sorted (map seg_key (s # rest))"
        using sorted_sort_key [of seg_key ?P] 2(1) by simp
      have a1: "sorted (map seg_key ?R)"
        using merge_loop_sorted [OF 2(2)] sorted_L 2(3) by simp
      have a2: "successively (\<lambda>x y. \<not> adjacent x y) ?R"
        using merge_loop_successively [OF 2(2)] 2(3) by simp
      have "merge_loop (join_run s []) rest [] = (s', m)"
        using 2(2) by (simp add: join_run_Nil)
      from merge_loop_runs [OF this] 2(1,3)
      have a3: "\<exists>runs. concat (map (\<lambda>(h, t). h # t) runs) = ?L
             \<and> list_all (\<lambda>(h, t). successively adjacent (h # t)) runs
             \<and> ?R = map (\<lambda>(h, t). join_run h t) runs"
        by simp
      have a4: "(\<forall>s \<in> set ?R. 0 < length_seg s) \<and> sorted_wrt ends_before ?R
            \<and> (\<forall>d x. covers ?R d x = covers ?P d x)"
        if pos: "\<forall>s \<in> set ?P. 0 < length_seg s" and dis: "non_overlapping ?P"
      proof -
        have pos_L: "\<forall>x \<in> set (s # rest). 0 < length_seg x"
          using pos 2(1) by (metis set_sort)
        have "non_overlapping (s # rest)"
          using non_overlapping_sort_key [OF pos dis] 2(1) by simp
        with sorted_L pos_L have "sorted_wrt ends_before (s # rest)"
          by (intro sorted_wrt_ends_before)
        with merge_loop_ends_before [OF 2(2)] pos_L 2(3)
        have b1: "sorted_wrt ends_before ?R" "\<forall>x \<in> set ?R. 0 < length_seg x"
          by simp_all
        have nonneg: "\<forall>y \<in> set (s # rest). 0 \<le> length_seg y"
          using pos_L by (auto intro: less_imp_le)
        have "covers ?R d x = covers ?P d x" for d x
        proof -
          have "covers ?R d x = covers (s # rest) d x"
            using merge_loop_covers [OF 2(2) nonneg, of d x] 2(3) by simp
          also have "\<dots> = covers ?P d x"
            using 2(1) by (intro covers_set) (metis set_sort)
          finally show ?thesis .
        qed
        with b1 show ?thesis by blast
      qed
      from a1 a2 a3 a4 show ?thesis by blast
    qed
    then show "sorted (map seg_key ?R)"
      and "successively (\<lambda>x y. \<not> adjacent x y) ?R"
      and "\<exists>runs. concat (map (\<lambda>(h, t). h # t) runs) = ?L
         \<and> list_all (\<lambda>(h, t). successively adjacent (h # t)) runs
         \<and> ?R = map (\<lambda>(h, t). join_run h t) runs"
      and "(\<forall>s \<in> set ?P. 0 < length_seg s) \<and> non_overlapping ?P \<longrightarrow>
        (\<forall>s \<in> set ?R. 0 < length_seg s) \<and> sorted_wrt ends_before ?R
        \<and> (\<forall>d x. covers ?R d x = covers ?P d x)"
      by blast+
  qed
  have partB: "(\<forall>s \<in> set ?R. 0 < length_seg s)
        \<and> non_overlapping ?R
        \<and> (\<forall>x \<in> set ?R. \<forall>y \<in> set ?R. \<not> adjacent x y)
        \<and> (\<forall>d x. covers ?R d x = covers ?P d x)
        \<and> (\<forall>R'. sorted (map seg_key R') \<and> (\<forall>s \<in> set R'. 0 < length_seg s)
                 \<and> non_overlapping R' \<and> (\<forall>x \<in> set R'. \<forall>y \<in> set R'. \<not> adjacent x y)
                 \<and> (\<forall>d x. covers R' d x = covers ?P d x)
               \<longrightarrow> R' = ?R)"
    if pos: "\<forall>s \<in> set ?P. 0 < length_seg s" and dis: "non_overlapping ?P"
  proof -
    from disjoint_R pos dis have pos_R: "\<forall>s \<in> set ?R. 0 < length_seg s"
      and eb_R: "sorted_wrt ends_before ?R"
      and cov_R: "\<forall>d x. covers ?R d x = covers ?P d x"
      by blast+
    from eb_R have no_R: "non_overlapping ?R"
      by (rule non_overlapping_if_ends_before)
    from eb_R pos_R succ_R have adj_R: "\<forall>x \<in> set ?R. \<forall>y \<in> set ?R. \<not> adjacent x y"
      by (rule no_adjacent_pairs)
    have "R' = ?R"
      if "sorted (map seg_key R')" "\<forall>s \<in> set R'. 0 < length_seg s" "non_overlapping R'"
        "\<forall>x \<in> set R'. \<forall>y \<in> set R'. \<not> adjacent x y"
        "\<forall>d x. covers R' d x = covers ?P d x" for R'
    proof -
      from that(5) cov_R have "\<forall>d x. covers R' d x = covers ?R d x" by simp
      with sorted_R pos_R no_R adj_R that(1-4) show ?thesis
        by (intro unique_representation)
    qed
    with pos_R no_R adj_R cov_R show ?thesis by blast
  qed
  from sorted_R succ_R runs_R release_segments_free_space [of a X] partB show ?thesis
    by blast
qed

theorem C7_release_sorted_and_merged_witness:
  "list_all (\<lambda>s. 0 < length_seg s)
     [\<lparr>dev = ''d0'', offset = 20, length_seg = 5\<rparr>,
      \<lparr>dev = ''d0'', offset = 10, length_seg = 10\<rparr>,
      \<lparr>dev = ''d1'', offset = 0, length_seg = 5\<rparr>,
      \<lparr>dev = ''d0'', offset = 0, length_seg = 5\<rparr>]
   \<and> non_overlapping
     [\<lparr>dev = ''d0'', offset = 20, length_seg = 5\<rparr>,
      \<lparr>dev = ''d0'', offset = 10, length_seg = 10\<rparr>,
      \<lparr>dev = ''d1'', offset = 0, length_seg = 5\<rparr>,
      \<lparr>dev = ''d0'', offset = 0, length_seg = 5\<rparr>]
   \<and> release_segments \<lparr>free_segments = [\<lparr>dev = ''d0'', offset = 20, length_seg = 5\<rparr>]\<rparr>
       [\<lparr>dev = ''d0'', offset = 10, length_seg = 10\<rparr>,
        \<lparr>dev = ''d1'', offset = 0, length_seg = 5\<rparr>,
        \<lparr>dev = ''d0'', offset = 0, length_seg = 5\<rparr>]
     = (Inr (), \<lparr>free_segments = [\<lparr>dev = ''d0'', offset = 0, length_seg = 5\<rparr>,
                                  \<lparr>dev = ''d0'', offset = 10, length_seg = 15\<rparr>,
                                  \<lparr>dev = ''d1'', offset = 0, length_seg = 5\<rparr>]\<rparr>)
   \<and> sorted (map seg_key [\<lparr>dev = ''d0'', offset = 0, length_seg = 5\<rparr>,
                           \<lparr>dev = ''d0'', offset = 10, length_seg = 15\<rparr>,
                           \<lparr>dev = ''d1'', offset = 0, length_seg = 5\<rparr>])
   \<and> \<not> adjacent \<lparr>dev = ''d0'', offset = 0, length_seg = 5\<rparr>
                 \<lparr>dev = ''d0'', offset = 10, length_seg = 15\<rparr>
   \<and> covers [\<lparr>dev = ''d0'', offset = 0, length_seg = 5\<rparr>,
              \<lparr>dev = ''d0'', offset = 10, length_seg = 15\<rparr>,
              \<lparr>dev = ''d1'', offset = 0, length_seg = 5\<rparr>] ''d0'' 22"
proof -
  let ?a = "\<lparr>free_segments = [\<lparr>dev = ''d0'', offset = 20, length_seg = 5\<rparr>]\<rparr>"
  let ?X = "[\<lparr>dev = ''d0'', offset = 10, length_seg = 10\<rparr>,
             \<lparr>dev = ''d1'', offset = 0, length_seg = 5\<rparr>,
             \<lparr>dev = ''d0'', offset = 0, length_seg = 5\<rparr>]"
  let ?R = "[\<lparr>dev = ''d0'', offset = 0, length_seg = 5\<rparr>,
             \<lparr>dev = ''d0'', offset = 10, length_seg = 15\<rparr>,
             \<lparr>dev = ''d1'', offset = 0, length_seg = 5\<rparr>]"
  have h1: "\<forall>s \<in> set (free_segments ?a @ ?X). 0 < length_seg s"
    by simp
  have h2: "non_overlapping (free_segments ?a @ ?X)"
    by (simp add: non_overlapping_def overlaps_def)
  have r: "release_segments ?a ?X = (Inr (), \<lparr>free_segments = ?R\<rparr>)"
    by (simp add: release_segments_def merge_segs_def seg_key_def)
  then have pool: "pool_after_release ?a ?X = ?R"
    by (simp add: pool_after_release_def)
  have c: "covers (free_segments ?a @ ?X) ''d0'' 22"
    by (simp add: covers_def)
  from C7_release_sorted_and_merged [of ?a ?X] h1 h2
  have "sorted (map seg_key (pool_after_release ?a ?X))"
    and "\<forall>x \<in> set (pool_after_release ?a ?X).
           \<forall>y \<in> set (pool_after_release ?a ?X). \<not> adjacent x y"
    and "\<forall>d x. covers (pool_after_release ?a ?X) d x = covers (free_segments ?a @ ?X) d x"
    by blast+
  with pool c have "sorted (map seg_key ?R)"
    and "\<not> adjacent \<lparr>dev = ''d0'', offset = 0, length_seg = 5\<rparr>
                     \<lparr>dev = ''d0'', offset = 10, length_seg = 15\<rparr>"
    and "covers ?R ''d0'' 22"
    by simp_all
  with h1 h2 r show ?thesis
    by simp
qed

text \<open>
  C8. When an allocated linear volume is resized to more than its recorded length and
  the call returns, the extents and targets it had are a prefix of the new lists,
  unchanged and in place; the extents that the allocator returned for the difference, and
  their targets, come after them.
\<close>

theorem C8_growth_appends:
  assumes "vol_allocated vol" and "vol_length vol < new_length"
    and "LinearVolume_resize vol allocator new_length p = (Inr (), allocator', vol')"
  shows "\<exists>new_segs.
           allocate_segments allocator (new_length - vol_length vol) p = (Inr new_segs, allocator')
           \<and> vol_segments vol' = vol_segments vol @ new_segs
           \<and> vol_targets vol' = vol_targets vol @ segs_to_targets new_segs
           \<and> take (length (vol_segments vol)) (vol_segments vol') = vol_segments vol
           \<and> take (length (vol_targets vol)) (vol_targets vol') = vol_targets vol"
  using assms
  by (auto simp: LinearVolume_resize_def split: prod.splits sum.splits if_splits)

theorem C8_growth_appends_witness:
  "vol_allocated scenario_vol \<and> vol_length scenario_vol < 50
   \<and> LinearVolume_resize scenario_vol
        \<lparr>free_segments = [\<lparr>dev = ''d0'', offset = 30, length_seg = 70\<rparr>]\<rparr> 50 None
      = (Inr (), \<lparr>free_segments = [\<lparr>dev = ''d0'', offset = 50, length_seg = 50\<rparr>]\<rparr>,
         scenario_vol\<lparr>vol_segments := [\<lparr>dev = ''d0'', offset = 0, length_seg = 30\<rparr>,
                                        \<lparr>dev = ''d0'', offset = 30, length_seg = 20\<rparr>],
                     vol_targets := [LinearTarget 30 ''d0'' 0, LinearTarget 20 ''d0'' 30],
                     vol_length := 50\<rparr>)
   \<and> take (length (vol_segments scenario_vol))
        [\<lparr>dev = ''d0'', offset = 0, length_seg = 30\<rparr>,
         \<lparr>dev = ''d0'', offset = 30, length_seg = 20\<rparr>] = vol_segments scenario_vol
   \<and> take (length (vol_targets scenario_vol))
        [LinearTarget 30 ''d0'' 0, LinearTarget 20 ''d0'' 30] = vol_targets scenario_vol"
proof -
  let ?a = "\<lparr>free_segments = [\<lparr>dev = ''d0'', offset = 30, length_seg = 70\<rparr>]\<rparr>"
  let ?a' = "\<lparr>free_segments = [\<lparr>dev = ''d0'', offset = 50, length_seg = 50\<rparr>]\<rparr>"
  let ?v' = "scenario_vol\<lparr>vol_segments := [\<lparr>dev = ''d0'', offset = 0, length_seg = 30\<rparr>,
                                        \<lparr>dev = ''d0'', offset = 30, length_seg = 20\<rparr>],
                     vol_targets := [LinearTarget 30 ''d0'' 0, LinearTarget 20 ''d0'' 30],
                     vol_length := 50\<rparr>"
  have h1: "vol_allocated scenario_vol" by (simp add: scenario_vol_def)
  have h2: "vol_length scenario_vol < 50" by (simp add: scenario_vol_def)
  have h3: "LinearVolume_resize scenario_vol ?a 50 None = (Inr (), ?a', ?v')"
    by (simp add: scenario_vol_def LinearVolume_resize_def allocate_eval segs_to_targets_def)
  from C8_growth_appends [OF h1 h2 h3]
  have "take (length (vol_segments scenario_vol)) (vol_segments ?v') = vol_segments scenario_vol
      \<and> take (length (vol_targets scenario_vol)) (vol_targets ?v') = vol_targets scenario_vol"
    by blast
  with h1 h2 h3 show ?thesis
    by simp
qed

text \<open>
  C9. An allocated linear volume owns what its recorded length says: the allocation of
  a volume of non-negative length establishes \<open>Volume_size vol = vol_length vol\<close>, and
  every successful resize keeps it. For such a volume, a resize to less than its current
  size raises \<^verbatim>\<open>NotImplementedError\<close> and leaves the allocator and the volume, its
  extents, targets and length, as they were. Resizing an unallocated volume sets the
  recorded length and nothing else; the allocator is not touched.
\<close>

theorem C9_shrink_not_supported:
  "(vol_allocated vol \<and> Volume_size vol = vol_length vol \<and> new_length < Volume_size vol \<longrightarrow>
      LinearVolume_resize vol allocator new_length p
        = (Inl (NotImplementedError ''reduce not implemented''), allocator, vol))
   \<and> (0 \<le> vol_length vol0 \<and> LinearVolume_allocate vol0 allocator0 p0 = (Inr (), allocator, vol) \<longrightarrow>
        vol_allocated vol \<and> Volume_size vol = vol_length vol)
   \<and> (vol_allocated vol \<and> Volume_size vol = vol_length vol
        \<and> LinearVolume_resize vol allocator n p = (Inr (), allocator', vol') \<longrightarrow>
        vol_allocated vol' \<and> Volume_size vol' = vol_length vol')
   \<and> (\<not> vol_allocated vol \<longrightarrow>
      LinearVolume_resize vol allocator new_length p
        = (Inr (), allocator, vol\<lparr>vol_length := new_length\<rparr>))"
proof -
  have shrink: "LinearVolume_resize vol allocator new_length p
        = (Inl (NotImplementedError ''reduce not implemented''), allocator, vol)"
    if "vol_allocated vol" "Volume_size vol = vol_length vol" "new_length < Volume_size vol"
    using that by (simp add: LinearVolume_resize_def)
  have unallocated: "LinearVolume_resize vol allocator new_length p
        = (Inr (), allocator, vol\<lparr>vol_length := new_length\<rparr>)"
    if "\<not> vol_allocated vol"
    using that by (simp add: LinearVolume_resize_def)
  from shrink unallocated
    LinearVolume_allocate_size [of vol0 allocator0 p0 allocator vol]
    LinearVolume_resize_size [of vol allocator n p allocator' vol']
  show ?thesis by blast
qed

theorem C9_shrink_not_supported_witness:
  "0 \<le> vol_length (LinearVolume_init ''v'' 30)
   \<and> LinearVolume_allocate (LinearVolume_init ''v'' 30)
        \<lparr>free_segments = [\<lparr>dev = ''d0'', offset = 0, length_seg = 100\<rparr>]\<rparr> None
      = (Inr (), \<lparr>free_segments = [\<lparr>dev = ''d0'', offset = 30, length_seg = 70\<rparr>]\<rparr>, scenario_vol)
   \<and> vol_allocated scenario_vol \<and> Volume_size scenario_vol = vol_length scenario_vol
   \<and> 10 < Volume_size scenario_vol
   \<and> LinearVolume_resize scenario_vol
        \<lparr>free_segments = [\<lparr>dev = ''d0'', offset = 30, length_seg = 70\<rparr>]\<rparr> 10 None
       = (Inl (NotImplementedError ''reduce not implemented''),
          \<lparr>free_segments = [\<lparr>dev = ''d0'', offset = 30, length_seg = 70\<rparr>]\<rparr>, scenario_vol)
   \<and> \<not> vol_allocated (LinearVolume_init ''w'' 5)
   \<and> LinearVolume_resize (LinearVolume_init ''w'' 5)
        \<lparr>free_segments = [\<lparr>dev = ''d0'', offset = 30, length_seg = 70\<rparr>]\<rparr> 10 None
       = (Inr (), \<lparr>free_segments = [\<lparr>dev = ''d0'', offset = 30, length_seg = 70\<rparr>]\<rparr>,
          (LinearVolume_init ''w'' 5)\<lparr>vol_length := 10\<rparr>)"
proof -
  let ?before = "\<lparr>free_segments = [\<lparr>dev = ''d0'', offset = 0, length_seg = 100\<rparr>]\<rparr>"
  let ?a = "\<lparr>free_segments = [\<lparr>dev = ''d0'', offset = 30, length_seg = 70\<rparr>]\<rparr>"
  have h0: "0 \<le> vol_length (LinearVolume_init ''v'' 30)"
    by (simp add: LinearVolume_init_def Volume_init_def)
  have h1: "LinearVolume_allocate (LinearVolume_init ''v'' 30) ?before None = (Inr (), ?a, scenario_vol)"
    by (simp add: LinearVolume_allocate_def LinearVolume_init_def Volume_init_def
        allocate_eval segs_to_targets_def)
       (simp add: scenario_vol_def)
  from h0 h1
    C9_shrink_not_supported [of scenario_vol 10 ?a None "LinearVolume_init ''v'' 30" ?before None]
  have inv: "vol_allocated scenario_vol \<and> Volume_size scenario_vol = vol_length scenario_vol"
    by blast
  have h2: "10 < Volume_size scenario_vol"
    by (simp add: scenario_vol_def Volume_size_def)
  from inv h2 C9_shrink_not_supported [of scenario_vol 10 ?a None]
  have fails: "LinearVolume_resize scenario_vol ?a 10 None
       = (Inl (NotImplementedError ''reduce not implemented''), ?a, scenario_vol)"
    by blast
  have h3: "\<not> vol_allocated (LinearVolume_init ''w'' 5)"
    by (simp add: LinearVolume_init_def Volume_init_def)
  from h3 C9_shrink_not_supported [of "LinearVolume_init ''w'' 5" 10 ?a None]
  have unalloc: "LinearVolume_resize (LinearVolume_init ''w'' 5) ?a 10 None
       = (Inr (), ?a, (LinearVolume_init ''w'' 5)\<lparr>vol_length := 10\<rparr>)"
    by blast
  from h0 h1 inv h2 fails h3 unalloc show ?thesis
    by simp
qed

text \<open>
  C10. \<^verbatim>\<open>VM.add_volume\<close> with a name that is taken raises \<^verbatim>\<open>VolumeError\<close> and leaves
  the manager, pool and registry, as it was; when the name is free and the volume's
  allocation raises, \<^verbatim>\<open>add_volume\<close> raises the same exception and the registry is
  unchanged, while the allocator is as the failed allocation left it.
\<close>

theorem C10_add_volume_failure:
  "(vol_name vol \<in> dom (vm_volumes vm) \<longrightarrow>
      add_volume vm vol p =
        (Inl (VolumeError (''Volume '' @ [CHR 0x27] @ vol_name vol @ [CHR 0x27] @ '' already exists'')),
         vm))
   \<and> (vol_name vol \<notin> dom (vm_volumes vm) \<longrightarrow>
        (\<forall>e. fst (allocate vol (vm_allocator vm) p) = Inl e \<longrightarrow>
           fst (add_volume vm vol p) = Inl e
           \<and> vm_volumes (snd (add_volume vm vol p)) = vm_volumes vm
           \<and> vm_allocator (snd (add_volume vm vol p))
               = fst (snd (allocate vol (vm_allocator vm) p))))"
  by (auto simp: add_volume_def check_not_exist_def split: prod.splits sum.splits)

theorem C10_add_volume_failure_witness:
  "''v'' \<in> dom (vm_volumes scenario_vm)
   \<and> add_volume scenario_vm (LinearVolume_init ''v'' 10) None =
       (Inl (VolumeError (''Volume '' @ [CHR 0x27] @ ''v'' @ [CHR 0x27] @ '' already exists'')),
        scenario_vm)
   \<and> ''w'' \<notin> dom (vm_volumes scenario_vm)
   \<and> fst (allocate (LinearVolume_init ''w'' 100) (vm_allocator scenario_vm) None)
       = Inl (SegmentAllocationError ''Out of space in the segment allocator'')
   \<and> fst (add_volume scenario_vm (LinearVolume_init ''w'' 100) None)
       = Inl (SegmentAllocationError ''Out of space in the segment allocator'')
   \<and> vm_volumes (snd (add_volume scenario_vm (LinearVolume_init ''w'' 100) None))
       = vm_volumes scenario_vm"
proof -
  have h1: "vol_name (LinearVolume_init ''v'' 10) \<in> dom (vm_volumes scenario_vm)"
    by (simp add: scenario_vm_eq LinearVolume_init_def Volume_init_def)
  have h2: "vol_name (LinearVolume_init ''w'' 100) \<notin> dom (vm_volumes scenario_vm)"
    by (simp add: scenario_vm_eq LinearVolume_init_def Volume_init_def)
  have h3: "fst (allocate (LinearVolume_init ''w'' 100) (vm_allocator scenario_vm) None)
       = Inl (SegmentAllocationError ''Out of space in the segment allocator'')"
    by (simp add: scenario_vm_eq LinearVolume_init_def Volume_init_def allocate_def
        LinearVolume_allocate_def allocate_eval)
  from h1 C10_add_volume_failure [of "LinearVolume_init ''v'' 10" scenario_vm None]
  have a: "add_volume scenario_vm (LinearVolume_init ''v'' 10) None =
       (Inl (VolumeError (''Volume '' @ [CHR 0x27] @ ''v'' @ [CHR 0x27] @ '' already exists'')),
        scenario_vm)"
    by (simp add: LinearVolume_init_def Volume_init_def)
  from h2 h3 C10_add_volume_failure [of "LinearVolume_init ''w'' 100" scenario_vm None]
  have b: "fst (add_volume scenario_vm (LinearVolume_init ''w'' 100) None)
       = Inl (SegmentAllocationError ''Out of space in the segment allocator'')
     \<and> vm_volumes (snd (add_volume scenario_vm (LinearVolume_init ''w'' 100) None))
       = vm_volumes scenario_vm"
    by blast
  from h1 h2 h3 a b show ?thesis
    by (simp add: LinearVolume_init_def Volume_init_def)
qed

end
